theory Spec2Isabelle
  imports Main
begin

section \<open>Data model\<close>

text \<open>
  The documents of the forum backend, as the route handlers use them. Object ids are
  natural numbers, JavaScript numbers that only ever hold integers (counters, karma,
  timestamps in milliseconds) are \<open>int\<close>. Fields that no modelled handler reads
  (title, content, community, username) are left out.
\<close>

text \<open>One entry of the embedded \<open>voters\<close> array of a post or a comment.\<close>

record voter =
  user :: nat
  vote :: int

text \<open>The fields that posts and comments share, and that the two vote handlers use.\<close>

record votable =
  author :: nat
  upvotes :: int
  downvotes :: int
  voters :: "voter list"

record post_doc = votable +
  pid :: nat
  commentCount :: int

text \<open>
  Modelled from the spec: the comment schema (the model \<open>Comment\<close> that the routes
  require) is not among the sources. A comment is a votable target with the post it
  belongs to, an optional parent comment and its creation time; the field names are the
  ones the comment routes read and write.
\<close>

record comment_doc = votable +
  cid :: nat
  post :: nat
  parentId :: "nat option"
  createdAt :: int

text \<open>
  Modelled from the spec: the user schema (the model \<open>User\<close>) is not among the sources.
  A user is an id and an integer karma.
\<close>

record user_doc =
  uid :: nat
  karma :: int

text \<open>The persisted collections. A list keeps the natural order of a collection.\<close>

record db =
  posts :: "post_doc list"
  comments :: "comment_doc list"
  users :: "user_doc list"

text \<open>
  A comment as the listing route returns it: the document and, when the query for its
  replies found any, the property \<open>replies\<close>. The property stays unset (\<open>None\<close>) on a
  comment without replies.
\<close>

datatype node = Node comment_doc "node list option"

text \<open>
  What a handler sends: the status code and the JSON body. \<open>ErrMessage\<close> is the body
  \<open>{ message: err.message }\<close> of a \<open>catch\<close> block.
\<close>

datatype body =
    Message string
  | VoteBody string int int
  | CommentList "node list"
  | CommentDoc comment_doc
  | ErrMessage

type_synonym response = "nat \<times> body"

text \<open>
  Every \<open>await\<close> on the store may throw. A \<open>fault\<close> names the one call of a request
  that throws, if any; the enclosing \<open>try\<close>/\<open>catch\<close> of the handler turns it into
  an error response. \<open>FindTarget\<close>, \<open>SaveTarget\<close> and \<open>RemoveTarget\<close> are the calls on the
  document the route addresses, \<open>FindAuthor\<close> and \<open>SaveAuthor\<close> the calls on its author's
  user document, \<open>Aggregate\<close> a karma aggregation, \<open>FindPost\<close> and \<open>SavePost\<close> the calls
  on a comment's post, \<open>FindParent\<close> the lookup of a parent comment,
  \<open>DeleteComments\<close> the \<open>deleteMany\<close> of a post's comments and \<open>FindComments\<close> a comment
  query of the listing.
\<close>

datatype fault =
    NoFault
  | FindTarget
  | SaveTarget
  | RemoveTarget
  | FindAuthor
  | Aggregate
  | SaveAuthor
  | FindPost
  | SavePost
  | FindParent
  | DeleteComments
  | FindComments

section \<open>Store primitives\<close>

text \<open>\<open>Model.findById\<close>: the document with the given id, if there is one.\<close>

definition findById :: "('a \<Rightarrow> nat) \<Rightarrow> nat \<Rightarrow> 'a list \<Rightarrow> 'a option" where
  "findById key i xs = find (\<lambda>x. key x = i) xs"

text \<open>\<open>doc.save()\<close> of a loaded document: the stored document with its id is replaced.\<close>

fun saveDoc :: "('a \<Rightarrow> nat) \<Rightarrow> 'a \<Rightarrow> 'a list \<Rightarrow> 'a list" where
  "saveDoc key d [] = []"
| "saveDoc key d (x # xs) = (if key x = key d then d # xs else x # saveDoc key d xs)"

text \<open>\<open>doc.remove()\<close>: the stored document with its id is deleted.\<close>

fun removeDoc :: "('a \<Rightarrow> nat) \<Rightarrow> 'a \<Rightarrow> 'a list \<Rightarrow> 'a list" where
  "removeDoc key d [] = []"
| "removeDoc key d (x # xs) = (if key x = key d then xs else x # removeDoc key d xs)"

text \<open>\<open>Array.prototype.findIndex\<close>; \<open>None\<close> stands for the result \<open>-1\<close>.\<close>

fun findIndex :: "('a \<Rightarrow> bool) \<Rightarrow> 'a list \<Rightarrow> nat option" where
  "findIndex P [] = None"
| "findIndex P (x # xs) = (if P x then Some 0 else map_option Suc (findIndex P xs))"

text \<open>\<open>xs.splice(i, 1)\<close>: the element at index \<open>i\<close> is taken out.\<close>

definition spliceOut :: "nat \<Rightarrow> 'a list \<Rightarrow> 'a list" where
  "spliceOut i xs = take i xs @ drop (Suc i) xs"

text \<open>
  The aggregation pipeline \<open>$match {author}\<close>, \<open>$group {$sum {$subtract [upvotes, downvotes]}}\<close>
  followed by \<open>result[0]?.karma || 0\<close>: the sum over the author's documents, 0 when
  there is none.
\<close>

definition aggregateKarma :: "nat \<Rightarrow> 'a votable_scheme list \<Rightarrow> int" where
  "aggregateKarma a ds = sum_list (map (\<lambda>d. upvotes d - downvotes d) (filter (\<lambda>d. author d = a) ds))"

section \<open>Voting\<close>

text \<open>
  The block "Check if user has already voted" / "Update the vote count", which the post
  route and the comment route share word for word. It works on the loaded document.
\<close>

definition removeExisting :: "int \<Rightarrow> 'a votable_scheme \<Rightarrow> 'a votable_scheme" where
  "removeExisting existingVote d =
     (if existingVote = 1 then d\<lparr>upvotes := upvotes d - 1\<rparr>
      else if existingVote = -1 then d\<lparr>downvotes := downvotes d - 1\<rparr>
      else d)"

definition addNew :: "int \<Rightarrow> 'a votable_scheme \<Rightarrow> 'a votable_scheme" where
  "addNew v d =
     (if v = 1 then d\<lparr>upvotes := upvotes d + 1\<rparr>
      else if v = -1 then d\<lparr>downvotes := downvotes d + 1\<rparr>
      else d)"

definition updateVoteCount :: "nat \<Rightarrow> int \<Rightarrow> 'a votable_scheme \<Rightarrow> 'a votable_scheme" where
  "updateVoteCount userId v d =
     (case findIndex (\<lambda>x. user x = userId) (voters d) of
        Some i \<Rightarrow>
          (let d1 = removeExisting (vote (voters d ! i)) d in
           if v = 0 then d1\<lparr>voters := spliceOut i (voters d1)\<rparr>
           else addNew v (d1\<lparr>voters := (voters d1)[i := (voters d1 ! i)\<lparr>vote := v\<rparr>]\<rparr>))
      | None \<Rightarrow>
          (if v \<noteq> 0 then addNew v (d\<lparr>voters := voters d @ [\<lparr>user = userId, vote = v\<rparr>]\<rparr>)
           else d))"

definition voteRecorded :: "'a votable_scheme \<Rightarrow> response" where
  "voteRecorded d = (200, VoteBody ''Vote recorded successfully'' (upvotes d) (downvotes d))"

text \<open>\<open>POST /posts/:id/vote\<close>. The author's karma is the sum over the author's posts.\<close>

definition votePost :: "fault \<Rightarrow> nat \<Rightarrow> nat \<Rightarrow> int \<Rightarrow> db \<Rightarrow> response \<times> db" where
  "votePost flt userId postId v s =
     (if v \<notin> {1, 0, -1} then ((400, Message ''Invalid vote value''), s)
      else if flt = FindTarget then ((400, ErrMessage), s)
      else case findById pid postId (posts s) of
        None \<Rightarrow> ((404, Message ''Post not found''), s)
      | Some p0 \<Rightarrow>
          (let p = updateVoteCount userId v p0 in
           if flt = SaveTarget then ((400, ErrMessage), s)
           else
             (let s1 = s\<lparr>posts := saveDoc pid p (posts s)\<rparr> in
              if flt = FindAuthor then ((400, ErrMessage), s1)
              else case findById uid (author p) (users s1) of
                None \<Rightarrow> (voteRecorded p, s1)
              | Some u \<Rightarrow>
                  (if flt = Aggregate then ((400, ErrMessage), s1)
                   else
                     (let u' = u\<lparr>karma := aggregateKarma (uid u) (posts s1)\<rparr> in
                      if flt = SaveAuthor then ((400, ErrMessage), s1)
                      else (voteRecorded p, s1\<lparr>users := saveDoc uid u' (users s1)\<rparr>))))))"

text \<open>
  \<open>POST /comments/:id/vote\<close>. The author's karma is the sum over the author's posts plus
  the sum over the author's comments.
\<close>

definition voteComment :: "fault \<Rightarrow> nat \<Rightarrow> nat \<Rightarrow> int \<Rightarrow> db \<Rightarrow> response \<times> db" where
  "voteComment flt userId commentId v s =
     (if v \<notin> {1, 0, -1} then ((400, Message ''Invalid vote value''), s)
      else if flt = FindTarget then ((400, ErrMessage), s)
      else case findById cid commentId (comments s) of
        None \<Rightarrow> ((404, Message ''Comment not found''), s)
      | Some c0 \<Rightarrow>
          (let c = updateVoteCount userId v c0 in
           if flt = SaveTarget then ((400, ErrMessage), s)
           else
             (let s1 = s\<lparr>comments := saveDoc cid c (comments s)\<rparr> in
              if flt = FindAuthor then ((400, ErrMessage), s1)
              else case findById uid (author c) (users s1) of
                None \<Rightarrow> (voteRecorded c, s1)
              | Some u \<Rightarrow>
                  (if flt = Aggregate then ((400, ErrMessage), s1)
                   else
                     (let commentKarma = aggregateKarma (uid u) (comments s1);
                          postKarma = aggregateKarma (uid u) (posts s1);
                          u' = u\<lparr>karma := postKarma + commentKarma\<rparr> in
                      if flt = SaveAuthor then ((400, ErrMessage), s1)
                      else (voteRecorded c, s1\<lparr>users := saveDoc uid u' (users s1)\<rparr>))))))"

section \<open>Deleting a comment\<close>

text \<open>
  \<open>DELETE /comments/:id\<close>, called by the authenticated user \<open>userId\<close>. The comment count
  of the post is decremented with a floor of zero.
\<close>

definition deleteComment :: "fault \<Rightarrow> nat \<Rightarrow> nat \<Rightarrow> db \<Rightarrow> response \<times> db" where
  "deleteComment flt userId commentId s =
     (if flt = FindTarget then ((500, ErrMessage), s)
      else case findById cid commentId (comments s) of
        None \<Rightarrow> ((404, Message ''Comment not found''), s)
      | Some c \<Rightarrow>
          (if author c \<noteq> userId then ((403, Message ''Not authorized to delete this comment''), s)
           else if flt = RemoveTarget then ((500, ErrMessage), s)
           else
             (let s1 = s\<lparr>comments := removeDoc cid c (comments s)\<rparr> in
              if flt = FindPost then ((500, ErrMessage), s1)
              else case findById pid (post c) (posts s1) of
                None \<Rightarrow> ((200, Message ''Comment deleted successfully''), s1)
              | Some p \<Rightarrow>
                  (let p' = p\<lparr>commentCount := max 0 (commentCount p - 1)\<rparr> in
                   if flt = SavePost then ((500, ErrMessage), s1)
                   else ((200, Message ''Comment deleted successfully''),
                         s1\<lparr>posts := saveDoc pid p' (posts s1)\<rparr>)))))"

section \<open>Creating a comment, deleting a post\<close>

text \<open>
  \<open>POST /comments\<close> by the authenticated user \<open>userId\<close>. The id \<open>newId\<close> and the
  timestamp \<open>now\<close> are what the store gives the new document. The defaults of the
  comment schema are not among the sources: as in the post schema, the counters of a new
  comment start at 0 and its voters list is empty.
\<close>

definition createComment ::
  "fault \<Rightarrow> nat \<Rightarrow> nat \<Rightarrow> int \<Rightarrow> nat \<Rightarrow> nat option \<Rightarrow> db \<Rightarrow> response \<times> db" where
  "createComment flt userId newId now postId parent s =
     (if flt = FindPost then ((400, ErrMessage), s)
      else case findById pid postId (posts s) of
        None \<Rightarrow> ((404, Message ''Post not found''), s)
      | Some p \<Rightarrow>
          (if flt = FindParent \<and> parent \<noteq> None then ((400, ErrMessage), s)
           else if (case parent of None \<Rightarrow> False
                    | Some i \<Rightarrow> findById cid i (comments s) = None)
             then ((404, Message ''Parent comment not found''), s)
           else
             (let c = \<lparr>author = userId, upvotes = 0, downvotes = 0, voters = [],
                       cid = newId, post = postId, parentId = parent, createdAt = now\<rparr> in
              if flt = SaveTarget then ((400, ErrMessage), s)
              else
                (let s1 = s\<lparr>comments := comments s @ [c]\<rparr>;
                     p' = p\<lparr>commentCount := commentCount p + 1\<rparr> in
                 if flt = SavePost then ((400, ErrMessage), s1)
                 else
                   (let s2 = s1\<lparr>posts := saveDoc pid p' (posts s1)\<rparr> in
                    if flt = FindAuthor then ((400, ErrMessage), s2)
                    else ((201, CommentDoc c), s2))))))"

text \<open>\<open>DELETE /posts/:id\<close>: the comments of the post go first, then the post.\<close>

definition deletePost :: "fault \<Rightarrow> nat \<Rightarrow> nat \<Rightarrow> db \<Rightarrow> response \<times> db" where
  "deletePost flt userId postId s =
     (if flt = FindTarget then ((500, ErrMessage), s)
      else case findById pid postId (posts s) of
        None \<Rightarrow> ((404, Message ''Post not found''), s)
      | Some p \<Rightarrow>
          (if author p \<noteq> userId then ((403, Message ''Not authorized to delete this post''), s)
           else if flt = DeleteComments then ((500, ErrMessage), s)
           else
             (let s1 = s\<lparr>comments := filter (\<lambda>c. post c \<noteq> pid p) (comments s)\<rparr> in
              if flt = RemoveTarget then ((500, ErrMessage), s1)
              else ((200, Message ''Post deleted successfully''),
                    s1\<lparr>posts := removeDoc pid p (posts s1)\<rparr>))))"

section \<open>The comment tree\<close>

text \<open>
  The two queries of \<open>GET /comments/post/:postId\<close>. \<open>sort({ createdAt: -1 })\<close> is a sort
  on the negated timestamp, \<open>sort({ createdAt: 1 })\<close> a sort on the timestamp; among equal
  timestamps the stored order is kept.
\<close>

definition findRoots :: "comment_doc list \<Rightarrow> nat \<Rightarrow> comment_doc list" where
  "findRoots cs postId =
     sort_key (\<lambda>c. - createdAt c) (filter (\<lambda>c. post c = postId \<and> parentId c = None) cs)"

definition findReplies :: "comment_doc list \<Rightarrow> nat \<Rightarrow> comment_doc list" where
  "findReplies cs parent = sort_key createdAt (filter (\<lambda>c. parentId c = Some parent) cs)"

text \<open>
  \<open>populateReplies\<close> loops over the comments it is given and calls itself on the replies
  of each. The source has no bound on the nesting; the first argument is the number of
  nested calls allowed, and \<open>None\<close> is a run that needs more.
\<close>

fun populateReplies :: "nat \<Rightarrow> comment_doc list \<Rightarrow> comment_doc list \<Rightarrow> node list option" where
  "populateReplies n cs [] = Some []"
| "populateReplies 0 cs (c # rest) = None"
| "populateReplies (Suc n) cs (c # rest) =
     (let replies = findReplies cs (cid c) in
      if replies \<noteq> [] then
        (case populateReplies n cs replies of
           None \<Rightarrow> None
         | Some rs \<Rightarrow>
             (case populateReplies (Suc n) cs rest of
                None \<Rightarrow> None
              | Some ns \<Rightarrow> Some (Node c (Some rs) # ns)))
      else
        (case populateReplies (Suc n) cs rest of
           None \<Rightarrow> None
         | Some ns \<Rightarrow> Some (Node c None # ns)))"

text \<open>The listing route: the roots of the post, each with its replies populated.\<close>

definition getPostComments :: "nat \<Rightarrow> fault \<Rightarrow> db \<Rightarrow> nat \<Rightarrow> response option" where
  "getPostComments fuel flt s postId =
     (if flt = FindComments then Some (500, ErrMessage)
      else map_option (\<lambda>forest. (200, CommentList forest))
             (populateReplies fuel (comments s) (findRoots (comments s) postId)))"

section \<open>Notions of the specification\<close>

text \<open>
  Karma as the specification defines it: the sum of upvotes minus downvotes over all
  posts and all comments of the user.
\<close>

definition specKarma :: "nat \<Rightarrow> db \<Rightarrow> int" where
  "specKarma a s = aggregateKarma a (posts s) + aggregateKarma a (comments s)"

text \<open>A run of votes on one post, or on one comment: who votes, and with which value.\<close>

fun votesOnPost :: "(nat \<times> int) list \<Rightarrow> nat \<Rightarrow> db \<Rightarrow> db" where
  "votesOnPost [] i s = s"
| "votesOnPost ((u, v) # cs) i s = votesOnPost cs i (snd (votePost NoFault u i v s))"

fun votesOnComment :: "(nat \<times> int) list \<Rightarrow> nat \<Rightarrow> db \<Rightarrow> db" where
  "votesOnComment [] i s = s"
| "votesOnComment ((u, v) # cs) i s = votesOnComment cs i (snd (voteComment NoFault u i v s))"

fun castAll :: "(nat \<times> int) list \<Rightarrow> 'a votable_scheme \<Rightarrow> 'a votable_scheme" where
  "castAll [] d = d"
| "castAll ((u, v) # cs) d = castAll cs (updateVoteCount u v d)"

definition validCasts :: "(nat \<times> int) list \<Rightarrow> bool" where
  "validCasts cs \<longleftrightarrow> (\<forall>c\<in>set cs. snd c \<in> {1, 0, -1})"

text \<open>The value of the last vote a user cast in a run, \<open>None\<close> for a user who cast none.\<close>

fun lastVote :: "(nat \<times> int) list \<Rightarrow> nat \<Rightarrow> int option" where
  "lastVote [] u = None"
| "lastVote ((u', v) # cs) u =
     (case lastVote cs u of Some w \<Rightarrow> Some w | None \<Rightarrow> if u' = u then Some v else None)"

definition usersWithLastVote :: "int \<Rightarrow> (nat \<times> int) list \<Rightarrow> nat" where
  "usersWithLastVote w cs = length (filter (\<lambda>u. lastVote cs u = Some w) (remdups (map fst cs)))"

text \<open>A fresh target: nobody has voted and both counters are 0.\<close>

definition fresh :: "'a votable_scheme \<Rightarrow> bool" where
  "fresh d \<longleftrightarrow> voters d = [] \<and> upvotes d = 0 \<and> downvotes d = 0"

definition tally :: "int \<Rightarrow> voter list \<Rightarrow> int" where
  "tally w vs = int (length (filter (\<lambda>x. vote x = w) vs))"

text \<open>
  The invariant of a votable target: at most one entry per user in \<open>voters\<close>, and the
  counters are the numbers of entries with value 1 and with value -1.
\<close>

definition consistent :: "'a votable_scheme \<Rightarrow> bool" where
  "consistent d \<longleftrightarrow>
     distinct (map user (voters d)) \<and>
     upvotes d = tally 1 (voters d) \<and>
     downvotes d = tally (-1) (voters d)"

definition votedAs :: "'a votable_scheme \<Rightarrow> nat \<Rightarrow> int \<Rightarrow> bool" where
  "votedAs d u w \<longleftrightarrow> (\<exists>x\<in>set (voters d). user x = u \<and> vote x = w)"

text \<open>
  The counters are not negative, and the vote the user has on record, if any, is counted:
  a recorded 1 is among the upvotes, a recorded -1 among the downvotes.
\<close>

definition reflected :: "nat \<Rightarrow> 'a votable_scheme \<Rightarrow> bool" where
  "reflected u d \<longleftrightarrow>
     0 \<le> upvotes d \<and> 0 \<le> downvotes d \<and>
     (case findIndex (\<lambda>x. user x = u) (voters d) of
        None \<Rightarrow> True
      | Some k \<Rightarrow> (vote (voters d ! k) = 1 \<longrightarrow> 1 \<le> upvotes d) \<and>
                  (vote (voters d ! k) = -1 \<longrightarrow> 1 \<le> downvotes d))"

text \<open>The write of a karma value to a user document, when the user exists.\<close>

definition karmaWrite :: "nat \<Rightarrow> int \<Rightarrow> user_doc list \<Rightarrow> user_doc list" where
  "karmaWrite a k us =
     (case findById uid a us of None \<Rightarrow> us | Some u \<Rightarrow> saveDoc uid (u\<lparr>karma := k\<rparr>) us)"

text \<open>Every comment belongs to a post of the store.\<close>

definition refsIntact :: "db \<Rightarrow> bool" where
  "refsIntact s \<longleftrightarrow> (\<forall>c\<in>set (comments s). findById pid (post c) (posts s) \<noteq> None)"

text \<open>Reading a returned forest.\<close>

fun comment_of :: "node \<Rightarrow> comment_doc" where
  "comment_of (Node c r) = c"

definition newestFirst :: "node list \<Rightarrow> bool" where
  "newestFirst ns \<longleftrightarrow>
     sorted_wrt (\<lambda>a b. createdAt (comment_of b) \<le> createdAt (comment_of a)) ns"

definition oldestFirst :: "node list \<Rightarrow> bool" where
  "oldestFirst ns \<longleftrightarrow>
     sorted_wrt (\<lambda>a b. createdAt (comment_of a) \<le> createdAt (comment_of b)) ns"

text \<open>
  A node is threaded when, at every depth below it, the replies of a comment are exactly
  the comments of the store whose parent it is, oldest first, and a comment nobody
  replied to has no \<open>replies\<close> property.
\<close>

fun threaded :: "comment_doc list \<Rightarrow> node \<Rightarrow> bool" where
  "threaded cs (Node c None) = (filter (\<lambda>r. parentId r = Some (cid c)) cs = [])"
| "threaded cs (Node c (Some rs)) =
     (rs \<noteq> [] \<and>
      set (map comment_of rs) = set (filter (\<lambda>r. parentId r = Some (cid c)) cs) \<and>
      oldestFirst rs \<and>
      (\<forall>r\<in>set rs. threaded cs r))"

text \<open>
  The depth of a comment of the store below a root. It measures how deep the walk can
  nest, and is used in the termination argument only.
\<close>

inductive atDepth :: "comment_doc list \<Rightarrow> nat \<Rightarrow> comment_doc \<Rightarrow> bool" for cs where
  root: "c \<in> set cs \<Longrightarrow> parentId c = None \<Longrightarrow> atDepth cs 0 c"
| reply: "atDepth cs k p \<Longrightarrow> c \<in> set cs \<Longrightarrow> parentId c = Some (cid p) \<Longrightarrow> atDepth cs (Suc k) c"

section \<open>Concrete stores\<close>

text \<open>
  A small store: user 1 wrote post 10 and comment 20, user 2 upvoted comment 20 and
  replied to it with comment 21; the stored karma of both users is up to date.
\<close>

definition post10 :: post_doc where
  "post10 = \<lparr>author = 1, upvotes = 0, downvotes = 0, voters = [], pid = 10, commentCount = 2\<rparr>"

definition comment20 :: comment_doc where
  "comment20 = \<lparr>author = 1, upvotes = 1, downvotes = 0, voters = [\<lparr>user = 2, vote = 1\<rparr>],
                 cid = 20, post = 10, parentId = None, createdAt = 100\<rparr>"

definition comment21 :: comment_doc where
  "comment21 = \<lparr>author = 2, upvotes = 0, downvotes = 0, voters = [],
                 cid = 21, post = 10, parentId = Some 20, createdAt = 200\<rparr>"

definition forum :: db where
  "forum = \<lparr>posts = [post10], comments = [comment20, comment21],
            users = [\<lparr>uid = 1, karma = 1\<rparr>, \<lparr>uid = 2, karma = 0\<rparr>]\<rparr>"

text \<open>
  The same store after drift: user 2 is on record with an upvote on post 10 that the
  counter of the post does not show.
\<close>

definition drifted :: db where
  "drifted = forum\<lparr>posts := [post10\<lparr>voters := [\<lparr>user = 2, vote = 1\<rparr>]\<rparr>]\<rparr>"

text \<open>
  A discussion under post 10: three root comments written at times 10, 20 and 30, two
  replies to the first root written at 40 and 50, and a reply to the first reply.
\<close>

definition remark :: "nat \<Rightarrow> nat option \<Rightarrow> int \<Rightarrow> comment_doc" where
  "remark i parent t = \<lparr>author = 1, upvotes = 0, downvotes = 0, voters = [],
                      cid = i, post = 10, parentId = parent, createdAt = t\<rparr>"

definition thread :: db where
  "thread = \<lparr>posts = [post10],
             comments = [remark 5 (Some 1) 50, remark 2 None 20, remark 4 (Some 1) 40,
                         remark 1 None 10, remark 6 (Some 4) 60, remark 3 None 30],
             users = [\<lparr>uid = 1, karma = 0\<rparr>]\<rparr>"

section \<open>Store lemmas\<close>

lemma findById_saveDoc:
  "findById key i (saveDoc key d xs) =
     (case findById key i xs of None \<Rightarrow> None | Some x \<Rightarrow> if i = key d then Some d else Some x)"
  by (induction xs) (auto simp: findById_def split: option.splits)

lemma findById_key: "findById key i xs = Some x \<Longrightarrow> key x = i"
  by (induction xs) (auto simp: findById_def split: if_splits)

lemma findById_mem: "findById key i xs = Some x \<Longrightarrow> x \<in> set xs"
  by (induction xs) (auto simp: findById_def split: if_splits)

lemma saveDoc_same: "findById key i xs = Some x \<Longrightarrow> saveDoc key x xs = xs"
proof (induction xs)
  case Nil
  then show ?case by simp
next
  case (Cons a xs)
  have k: "key x = i" using Cons.prems by (rule findById_key)
  show ?case
  proof (cases "key a = i")
    case True
    with Cons.prems have "x = a" by (simp add: findById_def)
    then show ?thesis by simp
  next
    case False
    with Cons.prems have "findById key i xs = Some x" by (simp add: findById_def)
    with Cons.IH False k show ?thesis by simp
  qed
qed

lemma saveDoc_idem: "key d' = key d \<Longrightarrow> saveDoc key d' (saveDoc key d xs) = saveDoc key d' xs"
  by (induction xs) auto

section \<open>The vote block, case by case\<close>

lemma updateVoteCount_more [simp]: "votable.more (updateVoteCount u v d) = votable.more d"
  by (simp add: updateVoteCount_def removeExisting_def addNew_def Let_def split: option.splits)

lemma updateVoteCount_author [simp]: "author (updateVoteCount u v d) = author d"
  by (simp add: updateVoteCount_def removeExisting_def addNew_def Let_def split: option.splits)

lemma updateVoteCount_pid [simp]: "pid (updateVoteCount u v p) = pid p"
  by (simp add: updateVoteCount_def removeExisting_def addNew_def Let_def split: option.splits)

lemma updateVoteCount_cid [simp]: "cid (updateVoteCount u v c) = cid c"
  by (simp add: updateVoteCount_def removeExisting_def addNew_def Let_def split: option.splits)

lemma updateVoteCount_zero_absent:
  "findIndex (\<lambda>x. user x = u) (voters d) = None \<Longrightarrow> updateVoteCount u 0 d = d"
  by (simp add: updateVoteCount_def)

lemma findIndex_Some: "findIndex P xs = Some i \<Longrightarrow> i < length xs \<and> P (xs ! i)"
  by (induction xs arbitrary: i) (auto split: if_splits)

lemma findIndex_None: "findIndex P xs = None \<longleftrightarrow> (\<forall>x\<in>set xs. \<not> P x)"
  by (induction xs) auto

lemma findIndex_update:
  "findIndex P xs = Some i \<Longrightarrow> P y \<Longrightarrow> findIndex P (xs[i := y]) = Some i"
  by (induction xs arbitrary: i) (auto split: if_splits)

lemma findIndex_append_new:
  "findIndex P xs = None \<Longrightarrow> P y \<Longrightarrow> findIndex P (xs @ [y]) = Some (length xs)"
  by (induction xs) (auto split: if_splits)

lemma findIndex_removed:
  "findIndex (\<lambda>x. f x = u) xs = Some i \<Longrightarrow> distinct (map f xs) \<Longrightarrow>
   findIndex (\<lambda>x. f x = u) (spliceOut i xs) = None"
  unfolding spliceOut_def
proof (induction xs arbitrary: i)
  case Nil
  then show ?case by simp
next
  case (Cons a xs)
  show ?case
  proof (cases "f a = u")
    case True
    with Cons.prems have "i = 0" by simp
    moreover from True Cons.prems have "\<forall>x\<in>set xs. f x \<noteq> u"
      by (auto simp: image_iff)
    ultimately show ?thesis by (simp add: findIndex_None)
  next
    case False
    with Cons.prems obtain j where j: "findIndex (\<lambda>x. f x = u) xs = Some j" "i = Suc j"
      by auto
    with Cons.IH [of j] Cons.prems False show ?thesis by simp
  qed
qed

lemma voters_removeExisting [simp]: "voters (removeExisting e d) = voters d"
  by (simp add: removeExisting_def)

lemma voters_addNew [simp]: "voters (addNew v d) = voters d"
  by (simp add: addNew_def)

lemma addNew_removeExisting: "addNew v (removeExisting v d) = d"
  by (simp add: addNew_def removeExisting_def)

lemma addNew_voters_update: "addNew v (d\<lparr>voters := vs\<rparr>) = (addNew v d)\<lparr>voters := vs\<rparr>"
  by (simp add: addNew_def)

lemma removeExisting_voters_update:
  "removeExisting e (d\<lparr>voters := vs\<rparr>) = (removeExisting e d)\<lparr>voters := vs\<rparr>"
  by (simp add: removeExisting_def)

lemma updateVoteCount_absent:
  "findIndex (\<lambda>x. user x = u) (voters d) = None \<Longrightarrow> v \<noteq> 0 \<Longrightarrow>
   updateVoteCount u v d = (addNew v d)\<lparr>voters := voters d @ [\<lparr>user = u, vote = v\<rparr>]\<rparr>"
  by (simp add: updateVoteCount_def addNew_voters_update)

lemma updateVoteCount_retract:
  "findIndex (\<lambda>x. user x = u) (voters d) = Some i \<Longrightarrow>
   updateVoteCount u 0 d =
     (removeExisting (vote (voters d ! i)) d)\<lparr>voters := spliceOut i (voters d)\<rparr>"
  by (simp add: updateVoteCount_def)

lemma updateVoteCount_change:
  "findIndex (\<lambda>x. user x = u) (voters d) = Some i \<Longrightarrow> v \<noteq> 0 \<Longrightarrow>
   updateVoteCount u v d =
     (addNew v (removeExisting (vote (voters d ! i)) d))\<lparr>voters := (voters d)[i := (voters d ! i)\<lparr>vote := v\<rparr>]\<rparr>"
  by (simp add: updateVoteCount_def addNew_voters_update)

lemma updateVoteCount_idem:
  assumes "distinct (map user (voters d))"
  shows "updateVoteCount u v (updateVoteCount u v d) = updateVoteCount u v d"
proof (cases "findIndex (\<lambda>x. user x = u) (voters d)")
  case None
  show ?thesis
  proof (cases "v = 0")
    case True
    with None show ?thesis by (simp add: updateVoteCount_zero_absent)
  next
    case False
    let ?d = "(addNew v d)\<lparr>voters := voters d @ [\<lparr>user = u, vote = v\<rparr>]\<rparr>"
    have d: "updateVoteCount u v d = ?d"
      using None False by (rule updateVoteCount_absent)
    have "findIndex (\<lambda>x. user x = u) (voters ?d) = Some (length (voters d))"
      using None by (simp add: findIndex_append_new)
    then have "updateVoteCount u v ?d =
       (addNew v (removeExisting (vote (voters ?d ! length (voters d))) ?d))
         \<lparr>voters := (voters ?d)[length (voters d) := (voters ?d ! length (voters d))\<lparr>vote := v\<rparr>]\<rparr>"
      using False by (rule updateVoteCount_change)
    also have "\<dots> = ?d"
      by (simp add: addNew_removeExisting)
    finally show ?thesis by (simp add: d)
  qed
next
  case (Some i)
  then have i: "i < length (voters d)" "user (voters d ! i) = u"
    using findIndex_Some [of "\<lambda>x. user x = u" "voters d" i] by simp_all
  show ?thesis
  proof (cases "v = 0")
    case True
    let ?d = "(removeExisting (vote (voters d ! i)) d)\<lparr>voters := spliceOut i (voters d)\<rparr>"
    have d: "updateVoteCount u 0 d = ?d"
      using Some by (rule updateVoteCount_retract)
    have "findIndex (\<lambda>x. user x = u) (spliceOut i (voters d)) = None"
      using Some assms by (rule findIndex_removed)
    then have "updateVoteCount u 0 ?d = ?d"
      by (simp add: updateVoteCount_zero_absent)
    with d True show ?thesis by simp
  next
    case False
    let ?d = "(addNew v (removeExisting (vote (voters d ! i)) d))\<lparr>voters := (voters d)[i := (voters d ! i)\<lparr>vote := v\<rparr>]\<rparr>"
    have d: "updateVoteCount u v d = ?d"
      using Some False by (rule updateVoteCount_change)
    have "findIndex (\<lambda>x. user x = u) (voters ?d) = Some i"
      using Some i by (simp add: findIndex_update)
    then have "updateVoteCount u v ?d =
       (addNew v (removeExisting (vote (voters ?d ! i)) ?d))
         \<lparr>voters := (voters ?d)[i := (voters ?d ! i)\<lparr>vote := v\<rparr>]\<rparr>"
      using False by (rule updateVoteCount_change)
    also have "\<dots> = ?d"
      using i by (simp add: addNew_removeExisting removeExisting_voters_update addNew_voters_update)
    finally show ?thesis by (simp add: d)
  qed
qed

section \<open>The vote routes without faults\<close>

lemma karmaWrite_idem: "karmaWrite a k (karmaWrite a k us) = karmaWrite a k us"
proof (cases "findById uid a us")
  case None
  then show ?thesis by (simp add: karmaWrite_def)
next
  case (Some u)
  then have "uid u = a" by (rule findById_key)
  with Some show ?thesis
    by (simp add: karmaWrite_def findById_saveDoc saveDoc_idem)
qed

lemma votePost_NoFault:
  assumes "v \<in> {1, 0, -1}" and "findById pid i (posts s) = Some p0"
  shows "votePost NoFault userId i v s =
     (voteRecorded (updateVoteCount userId v p0),
      s\<lparr>posts := saveDoc pid (updateVoteCount userId v p0) (posts s),
        users := karmaWrite (author p0)
                   (aggregateKarma (author p0) (saveDoc pid (updateVoteCount userId v p0) (posts s)))
                   (users s)\<rparr>)"
proof (cases "findById uid (author p0) (users s)")
  case None
  with assms show ?thesis
    by (simp add: votePost_def karmaWrite_def Let_def)
next
  case (Some u)
  then have "uid u = author p0" by (rule findById_key)
  with Some assms show ?thesis
    by (simp add: votePost_def karmaWrite_def Let_def)
qed

lemma voteComment_NoFault:
  assumes "v \<in> {1, 0, -1}" and "findById cid i (comments s) = Some c0"
  shows "voteComment NoFault userId i v s =
     (voteRecorded (updateVoteCount userId v c0),
      s\<lparr>comments := saveDoc cid (updateVoteCount userId v c0) (comments s),
        users := karmaWrite (author c0)
                   (aggregateKarma (author c0) (posts s) +
                    aggregateKarma (author c0) (saveDoc cid (updateVoteCount userId v c0) (comments s)))
                   (users s)\<rparr>)"
proof (cases "findById uid (author c0) (users s)")
  case None
  with assms show ?thesis
    by (simp add: voteComment_def karmaWrite_def Let_def)
next
  case (Some u)
  then have "uid u = author c0" by (rule findById_key)
  with Some assms show ?thesis
    by (simp add: voteComment_def karmaWrite_def Let_def)
qed

lemma votePost_twice:
  assumes "\<forall>p. findById pid i (posts s) = Some p \<longrightarrow> distinct (map user (voters p))"
  shows "votePost NoFault userId i v (snd (votePost NoFault userId i v s)) =
         votePost NoFault userId i v s"
proof (cases "v \<in> {1, 0, -1}")
  case False
  then show ?thesis by (simp add: votePost_def)
next
  case v: True
  show ?thesis
  proof (cases "findById pid i (posts s)")
    case None
    with v show ?thesis by (simp add: votePost_def)
  next
    case (Some p0)
    let ?p = "updateVoteCount userId v p0"
    let ?s = "snd (votePost NoFault userId i v s)"
    have i: "pid p0 = i" using Some by (rule findById_key)
    have first: "votePost NoFault userId i v s =
      (voteRecorded ?p,
       s\<lparr>posts := saveDoc pid ?p (posts s),
         users := karmaWrite (author p0) (aggregateKarma (author p0) (saveDoc pid ?p (posts s))) (users s)\<rparr>)"
      using v Some by (rule votePost_NoFault)
    have found: "findById pid i (posts ?s) = Some ?p"
      using Some i by (simp add: first findById_saveDoc)
    have again: "updateVoteCount userId v ?p = ?p"
      using assms Some by (simp add: updateVoteCount_idem)
    show ?thesis
      unfolding votePost_NoFault [OF v found] again
      by (simp add: first saveDoc_idem karmaWrite_idem)
  qed
qed

lemma voteComment_twice:
  assumes "\<forall>c. findById cid i (comments s) = Some c \<longrightarrow> distinct (map user (voters c))"
  shows "voteComment NoFault userId i v (snd (voteComment NoFault userId i v s)) =
         voteComment NoFault userId i v s"
proof (cases "v \<in> {1, 0, -1}")
  case False
  then show ?thesis by (simp add: voteComment_def)
next
  case v: True
  show ?thesis
  proof (cases "findById cid i (comments s)")
    case None
    with v show ?thesis by (simp add: voteComment_def)
  next
    case (Some c0)
    let ?c = "updateVoteCount userId v c0"
    let ?s = "snd (voteComment NoFault userId i v s)"
    have i: "cid c0 = i" using Some by (rule findById_key)
    have first: "voteComment NoFault userId i v s =
      (voteRecorded ?c,
       s\<lparr>comments := saveDoc cid ?c (comments s),
         users := karmaWrite (author c0)
                    (aggregateKarma (author c0) (posts s) +
                     aggregateKarma (author c0) (saveDoc cid ?c (comments s))) (users s)\<rparr>)"
      using v Some by (rule voteComment_NoFault)
    have found: "findById cid i (comments ?s) = Some ?c"
      using Some i by (simp add: first findById_saveDoc)
    have again: "updateVoteCount userId v ?c = ?c"
      using assms Some by (simp add: updateVoteCount_idem)
    show ?thesis
      unfolding voteComment_NoFault [OF v found] again
      by (simp add: first saveDoc_idem karmaWrite_idem)
  qed
qed

lemma updateVoteCount_nonneg:
  assumes "reflected u d"
  shows "0 \<le> upvotes (updateVoteCount u v d) \<and> 0 \<le> downvotes (updateVoteCount u v d)"
  using assms
  by (auto simp: reflected_def updateVoteCount_def removeExisting_def addNew_def Let_def
           split: option.splits)

lemma votePost_posts:
  assumes "findById pid i (posts s) = Some p"
  shows "posts (snd (votePost flt userId i v s)) = posts s \<or>
         posts (snd (votePost flt userId i v s)) = saveDoc pid (updateVoteCount userId v p) (posts s)"
  using assms by (simp add: votePost_def Let_def split: option.splits)

lemma voteComment_comments:
  assumes "findById cid i (comments s) = Some c"
  shows "comments (snd (voteComment flt userId i v s)) = comments s \<or>
         comments (snd (voteComment flt userId i v s)) = saveDoc cid (updateVoteCount userId v c) (comments s)"
  using assms by (simp add: voteComment_def Let_def split: option.splits)

lemma votePost_nonneg:
  assumes "findById pid i (posts s) = Some p" and "reflected userId p"
    and "findById pid i (posts (snd (votePost flt userId i v s))) = Some p'"
  shows "0 \<le> upvotes p' \<and> 0 \<le> downvotes p'"
proof -
  have i: "pid p = i" using assms(1) by (rule findById_key)
  from votePost_posts [OF assms(1), of flt userId v]
  have "p' = p \<or> p' = updateVoteCount userId v p"
    using assms(1,3) i by (auto simp: findById_saveDoc)
  then show ?thesis
    using assms(2) updateVoteCount_nonneg [OF assms(2), of v] by (auto simp: reflected_def)
qed

lemma voteComment_nonneg:
  assumes "findById cid i (comments s) = Some c" and "reflected userId c"
    and "findById cid i (comments (snd (voteComment flt userId i v s))) = Some c'"
  shows "0 \<le> upvotes c' \<and> 0 \<le> downvotes c'"
proof -
  have i: "cid c = i" using assms(1) by (rule findById_key)
  from voteComment_comments [OF assms(1), of flt userId v]
  have "c' = c \<or> c' = updateVoteCount userId v c"
    using assms(1,3) i by (auto simp: findById_saveDoc)
  then show ?thesis
    using assms(2) updateVoteCount_nonneg [OF assms(2), of v] by (auto simp: reflected_def)
qed

lemma findById_karmaWrite:
  "findById uid a us = Some u \<Longrightarrow> findById uid a (karmaWrite a k us) = Some (u\<lparr>karma := k\<rparr>)"
  by (frule findById_key) (simp add: karmaWrite_def findById_saveDoc)

lemma voteComment_karma_total:
  assumes "v \<in> {1, 0, -1}" and "findById cid i (comments s) = Some c"
    and "findById uid (author c) (users s) = Some u"
  shows "map_option karma (findById uid (author c) (users (snd (voteComment NoFault userId i v s)))) =
         Some (specKarma (author c) (snd (voteComment NoFault userId i v s)))"
  using assms(3)
  by (simp add: voteComment_NoFault [OF assms(1,2)] findById_karmaWrite specKarma_def)

lemma votePost_karma_posts_only:
  assumes "v \<in> {1, 0, -1}" and "findById pid i (posts s) = Some p"
    and "findById uid (author p) (users s) = Some u"
  shows "map_option karma (findById uid (author p) (users (snd (votePost NoFault userId i v s)))) =
         Some (aggregateKarma (author p) (posts (snd (votePost NoFault userId i v s))))"
  using assms(3)
  by (simp add: votePost_NoFault [OF assms(1,2)] findById_karmaWrite)

section \<open>Counters and voters entries\<close>

lemma tally_Nil [simp]: "tally w [] = 0"
  by (simp add: tally_def)

lemma tally_Cons [simp]: "tally w (x # xs) = (if vote x = w then 1 else 0) + tally w xs"
  by (simp add: tally_def)

lemma tally_snoc [simp]: "tally w (xs @ [x]) = tally w xs + (if vote x = w then 1 else 0)"
  by (simp add: tally_def)

lemma spliceOut_0 [simp]: "spliceOut 0 (x # xs) = xs"
  by (simp add: spliceOut_def)

lemma spliceOut_Suc [simp]: "spliceOut (Suc i) (x # xs) = x # spliceOut i xs"
  by (simp add: spliceOut_def)

lemma set_spliceOut: "set (spliceOut i xs) \<subseteq> set xs"
  using set_take_subset [of i xs] set_drop_subset [of "Suc i" xs]
  by (auto simp: spliceOut_def)

lemma tally_update:
  "i < length xs \<Longrightarrow>
   tally w (xs[i := y]) = tally w xs - (if vote (xs ! i) = w then 1 else 0) + (if vote y = w then 1 else 0)"
proof (induction xs arbitrary: i)
  case Nil
  then show ?case by simp
next
  case (Cons a xs)
  then show ?case by (cases i) simp_all
qed

lemma tally_spliceOut:
  "i < length xs \<Longrightarrow> tally w (spliceOut i xs) = tally w xs - (if vote (xs ! i) = w then 1 else 0)"
proof (induction xs arbitrary: i)
  case Nil
  then show ?case by simp
next
  case (Cons a xs)
  then show ?case by (cases i) simp_all
qed

lemma map_user_update:
  "i < length xs \<Longrightarrow> map user (xs[i := (xs ! i)\<lparr>vote := v\<rparr>]) = map user xs"
  by (simp add: map_update list_update_same_conv)

lemma distinct_spliceOut:
  "distinct (map f xs) \<Longrightarrow> distinct (map f (spliceOut i xs))"
proof (induction xs arbitrary: i)
  case Nil
  then show ?case by (simp add: spliceOut_def)
next
  case (Cons a xs)
  show ?case
  proof (cases i)
    case 0
    with Cons.prems show ?thesis by simp
  next
    case (Suc j)
    with Cons.prems Cons.IH [of j] set_spliceOut [of j xs] show ?thesis by auto
  qed
qed

lemma updateVoteCount_distinct:
  assumes "distinct (map user (voters d))"
  shows "distinct (map user (voters (updateVoteCount u v d)))"
proof (cases "findIndex (\<lambda>x. user x = u) (voters d)")
  case None
  then have "u \<notin> user ` set (voters d)" by (auto simp: findIndex_None)
  with assms None show ?thesis
    by (cases "v = 0") (simp_all add: updateVoteCount_zero_absent updateVoteCount_absent)
next
  case (Some i)
  then have "i < length (voters d)"
    using findIndex_Some [of "\<lambda>x. user x = u" "voters d" i] by simp
  with assms Some show ?thesis
    by (cases "v = 0")
       (simp_all add: updateVoteCount_retract updateVoteCount_change distinct_spliceOut
          map_user_update)
qed

lemma consistent_updateVoteCount:
  assumes "consistent d" and "v \<in> {1, 0, -1}"
  shows "consistent (updateVoteCount u v d)"
proof (cases "findIndex (\<lambda>x. user x = u) (voters d)")
  case None
  then have "u \<notin> user ` set (voters d)" by (auto simp: findIndex_None)
  with assms None show ?thesis
    by (cases "v = 0")
       (auto simp: updateVoteCount_zero_absent updateVoteCount_absent consistent_def addNew_def)
next
  case (Some i)
  then have i: "i < length (voters d)"
    using findIndex_Some [of "\<lambda>x. user x = u" "voters d" i] by simp
  show ?thesis
  proof (cases "v = 0")
    case True
    with assms Some i show ?thesis
      by (simp add: updateVoteCount_retract consistent_def removeExisting_def
            tally_spliceOut distinct_spliceOut)
  next
    case False
    with assms Some i show ?thesis
      by (auto simp: updateVoteCount_change consistent_def removeExisting_def addNew_def
            tally_update map_user_update)
  qed
qed

lemma same_user_same_voter:
  "distinct (map user xs) \<Longrightarrow> x \<in> set xs \<Longrightarrow> y \<in> set xs \<Longrightarrow> user x = user y \<Longrightarrow> x = y"
  by (metis distinct_map inj_onD)

lemma set_spliceOut_distinct:
  "distinct xs \<Longrightarrow> i < length xs \<Longrightarrow> set (spliceOut i xs) = set xs - {xs ! i}"
proof (induction xs arbitrary: i)
  case Nil
  then show ?case by simp
next
  case (Cons a xs)
  then show ?case by (cases i) auto
qed

lemma votedAs_updateVoteCount:
  assumes "distinct (map user (voters d))"
  shows "votedAs (updateVoteCount u v d) u' w \<longleftrightarrow>
         (if u' = u then w = v \<and> v \<noteq> 0 else votedAs d u' w)"
proof (cases "findIndex (\<lambda>x. user x = u) (voters d)")
  case None
  then have "\<forall>x\<in>set (voters d). user x \<noteq> u" by (simp add: findIndex_None)
  with None show ?thesis
    by (cases "v = 0")
       (auto simp: updateVoteCount_zero_absent updateVoteCount_absent votedAs_def)
next
  case (Some i)
  then have i: "i < length (voters d)" "user (voters d ! i) = u"
    using findIndex_Some [of "\<lambda>x. user x = u" "voters d" i] by simp_all
  have dist: "distinct (voters d)" using assms by (simp add: distinct_map)
  have mem: "voters d ! i \<in> set (voters d)" using i by simp
  have only: "\<And>x. x \<in> set (voters d) \<Longrightarrow> user x = u \<Longrightarrow> x = voters d ! i"
    using same_user_same_voter [OF assms _ mem] i by simp
  show ?thesis
  proof (cases "v = 0")
    case True
    have "set (spliceOut i (voters d)) = set (voters d) - {voters d ! i}"
      using dist i by (simp add: set_spliceOut_distinct)
    with True Some i only show ?thesis
      by (auto simp: updateVoteCount_retract votedAs_def)
  next
    case False
    have "set ((voters d)[i := (voters d ! i)\<lparr>vote := v\<rparr>]) =
          insert ((voters d ! i)\<lparr>vote := v\<rparr>) (set (voters d) - {voters d ! i})"
      using dist i by (simp add: set_update_distinct)
    with False Some i only show ?thesis
      by (auto simp: updateVoteCount_change votedAs_def)
  qed
qed

lemma castAll_consistent:
  "consistent d \<Longrightarrow> validCasts cs \<Longrightarrow> consistent (castAll cs d)"
proof (induction cs arbitrary: d)
  case Nil
  then show ?case by simp
next
  case (Cons c cs)
  obtain u v where c: "c = (u, v)" by (cases c)
  with Cons.prems have "consistent (updateVoteCount u v d)" "validCasts cs"
    by (simp_all add: validCasts_def consistent_updateVoteCount)
  with Cons.IH c show ?case by simp
qed

lemma castAll_votedAs:
  "consistent d \<Longrightarrow> validCasts cs \<Longrightarrow>
   votedAs (castAll cs d) u w \<longleftrightarrow>
     (case lastVote cs u of Some x \<Rightarrow> w = x \<and> x \<noteq> 0 | None \<Rightarrow> votedAs d u w)"
proof (induction cs arbitrary: d)
  case Nil
  then show ?case by simp
next
  case (Cons c cs)
  obtain u' v where c: "c = (u', v)" by (cases c)
  with Cons.prems have step: "consistent (updateVoteCount u' v d)" "validCasts cs"
    by (simp_all add: validCasts_def consistent_updateVoteCount)
  have "distinct (map user (voters d))" using Cons.prems(1) by (simp add: consistent_def)
  then have "votedAs (updateVoteCount u' v d) u w \<longleftrightarrow>
             (if u = u' then w = v \<and> v \<noteq> 0 else votedAs d u w)"
    by (rule votedAs_updateVoteCount)
  with Cons.IH [OF step] c show ?case
    by (auto split: option.splits)
qed

lemma lastVote_user: "lastVote cs u = Some w \<Longrightarrow> u \<in> fst ` set cs"
  by (induction cs) (auto split: option.splits if_splits)

lemma tally_card:
  assumes "distinct (map user vs)"
  shows "tally w vs = int (card {u. \<exists>x\<in>set vs. user x = u \<and> vote x = w})"
proof -
  have inj: "inj_on user (set vs)" and dist: "distinct vs"
    using assms by (simp_all add: distinct_map)
  have "{u. \<exists>x\<in>set vs. user x = u \<and> vote x = w} = user ` set (filter (\<lambda>x. vote x = w) vs)"
    by auto
  moreover have "card (user ` set (filter (\<lambda>x. vote x = w) vs)) = card (set (filter (\<lambda>x. vote x = w) vs))"
    by (rule card_image) (rule inj_on_subset [OF inj], auto)
  moreover have "card (set (filter (\<lambda>x. vote x = w) vs)) = length (filter (\<lambda>x. vote x = w) vs)"
    by (intro distinct_card distinct_filter dist)
  ultimately show ?thesis by (simp add: tally_def)
qed

lemma castAll_fresh_counts:
  assumes "voters d = []" and "upvotes d = 0" and "downvotes d = 0" and "validCasts cs" and "w \<noteq> 0"
  shows "tally w (voters (castAll cs d)) = int (usersWithLastVote w cs)"
proof -
  have d: "consistent d" using assms by (simp add: consistent_def)
  then have c: "consistent (castAll cs d)" using assms(4) by (rule castAll_consistent)
  have "\<And>u. votedAs (castAll cs d) u w \<longleftrightarrow> lastVote cs u = Some w"
    using castAll_votedAs [OF d assms(4)] assms(1,5)
    by (auto simp: votedAs_def split: option.splits)
  then have "{u. \<exists>x\<in>set (voters (castAll cs d)). user x = u \<and> vote x = w} = {u. lastVote cs u = Some w}"
    by (simp add: votedAs_def)
  also have "\<dots> = set (filter (\<lambda>u. lastVote cs u = Some w) (remdups (map fst cs)))"
    using lastVote_user by auto
  finally have "tally w (voters (castAll cs d)) =
      int (card (set (filter (\<lambda>u. lastVote cs u = Some w) (remdups (map fst cs)))))"
    using c by (simp add: tally_card consistent_def)
  also have "\<dots> = int (usersWithLastVote w cs)"
    unfolding usersWithLastVote_def
    by (intro arg_cong [where f = int] distinct_card distinct_filter distinct_remdups)
  finally show ?thesis .
qed

lemma votesOnPost_castAll:
  "findById pid i (posts s) = Some p \<Longrightarrow> validCasts cs \<Longrightarrow>
   findById pid i (posts (votesOnPost cs i s)) = Some (castAll cs p)"
proof (induction cs arbitrary: s p)
  case Nil
  then show ?case by simp
next
  case (Cons c cs)
  obtain u v where c: "c = (u, v)" by (cases c)
  with Cons.prems have v: "v \<in> {1, 0, -1}" and cs: "validCasts cs"
    by (simp_all add: validCasts_def)
  have "pid p = i" using Cons.prems(1) by (rule findById_key)
  then have "findById pid i (posts (snd (votePost NoFault u i v s))) = Some (updateVoteCount u v p)"
    using Cons.prems(1) by (simp add: votePost_NoFault [OF v Cons.prems(1)] findById_saveDoc)
  from Cons.IH [OF this cs] c show ?case by simp
qed

lemma votesOnComment_castAll:
  "findById cid i (comments s) = Some c0 \<Longrightarrow> validCasts cs \<Longrightarrow>
   findById cid i (comments (votesOnComment cs i s)) = Some (castAll cs c0)"
proof (induction cs arbitrary: s c0)
  case Nil
  then show ?case by simp
next
  case (Cons c cs)
  obtain u v where c: "c = (u, v)" by (cases c)
  with Cons.prems have v: "v \<in> {1, 0, -1}" and cs: "validCasts cs"
    by (simp_all add: validCasts_def)
  have "cid c0 = i" using Cons.prems(1) by (rule findById_key)
  then have "findById cid i (comments (snd (voteComment NoFault u i v s))) = Some (updateVoteCount u v c0)"
    using Cons.prems(1) by (simp add: voteComment_NoFault [OF v Cons.prems(1)] findById_saveDoc)
  from Cons.IH [OF this cs] c show ?case by simp
qed

lemma castAll_fresh:
  assumes "fresh d" and "validCasts cs"
  shows "upvotes (castAll cs d) = int (usersWithLastVote 1 cs) \<and>
         downvotes (castAll cs d) = int (usersWithLastVote (-1) cs)"
proof -
  have "consistent d" using assms(1) by (simp add: consistent_def fresh_def)
  then have "consistent (castAll cs d)" using assms(2) by (rule castAll_consistent)
  then show ?thesis
    using assms castAll_fresh_counts [of d cs 1] castAll_fresh_counts [of d cs "-1"]
    by (simp add: consistent_def fresh_def)
qed

section \<open>Depth and termination of the tree walk\<close>

lemma atDepth_mem: "atDepth cs k c \<Longrightarrow> c \<in> set cs"
  by (induction rule: atDepth.induct) auto

lemma same_cid_same_comment:
  "distinct (map cid cs) \<Longrightarrow> x \<in> set cs \<Longrightarrow> y \<in> set cs \<Longrightarrow> cid x = cid y \<Longrightarrow> x = y"
  by (metis distinct_map inj_onD)

lemma atDepth_unique:
  assumes "distinct (map cid cs)"
  shows "atDepth cs k c \<Longrightarrow> atDepth cs j c \<Longrightarrow> k = j"
proof (induction arbitrary: j rule: atDepth.induct)
  case (root c)
  from root.prems root.hyps show ?case by (cases rule: atDepth.cases) auto
next
  case (reply k p c)
  from reply.prems show ?case
  proof (cases rule: atDepth.cases)
    case root
    with reply.hyps show ?thesis by simp
  next
    case (reply j' p')
    with reply.hyps have "cid p' = cid p" by simp
    moreover have "p \<in> set cs" "p' \<in> set cs"
      using reply.hyps(1) reply(2) by (auto dest: atDepth_mem)
    ultimately have "p' = p" using assms by (metis same_cid_same_comment)
    with reply reply.IH [of j'] show ?thesis by simp
  qed
qed

lemma atDepth_ancestors:
  assumes "distinct (map cid cs)"
  shows "atDepth cs k c \<Longrightarrow>
         \<exists>S. S \<subseteq> set cs \<and> card S = Suc k \<and> (\<forall>x\<in>S. \<exists>j\<le>k. atDepth cs j x)"
proof (induction rule: atDepth.induct)
  case (root c)
  then have "atDepth cs 0 c" by (rule atDepth.root)
  with root show ?case by (intro exI [of _ "{c}"]) auto
next
  case (reply k p c)
  then obtain S where S: "S \<subseteq> set cs" "card S = Suc k" "\<forall>x\<in>S. \<exists>j\<le>k. atDepth cs j x"
    by blast
  have c: "atDepth cs (Suc k) c" using reply.hyps by (rule atDepth.reply)
  have "c \<notin> S"
  proof
    assume "c \<in> S"
    with S(3) obtain j where "j \<le> k" "atDepth cs j c" by blast
    with atDepth_unique [OF assms c, of j] show False by simp
  qed
  moreover have "finite S" using S(1) by (rule finite_subset) simp
  ultimately have "card (insert c S) = Suc (Suc k)" using S(2) by simp
  moreover have "insert c S \<subseteq> set cs" using S(1) reply.hyps(2) by simp
  moreover have "\<forall>x\<in>insert c S. \<exists>j\<le>Suc k. atDepth cs j x"
    using S(3) c by (auto intro: le_SucI)
  ultimately show ?case by blast
qed

lemma atDepth_bound:
  assumes "distinct (map cid cs)" and "atDepth cs k c"
  shows "k < length cs"
proof -
  from atDepth_ancestors [OF assms] obtain S where "S \<subseteq> set cs" "card S = Suc k" by blast
  then have "Suc k \<le> card (set cs)" by (metis card_mono List.finite_set)
  also have "\<dots> \<le> length cs" by (rule card_length)
  finally show ?thesis by simp
qed

lemma set_findReplies: "set (findReplies cs i) = {r \<in> set cs. parentId r = Some i}"
  by (auto simp: findReplies_def)

lemma set_findRoots: "set (findRoots cs i) = {c \<in> set cs. post c = i \<and> parentId c = None}"
  by (auto simp: findRoots_def)

lemma populateReplies_returns:
  assumes "distinct (map cid cs)"
  shows "(\<forall>c\<in>set xs. atDepth cs k c) \<Longrightarrow> length cs \<le> n + k \<Longrightarrow>
         \<exists>ns. populateReplies n cs xs = Some ns"
proof (induction n arbitrary: xs k)
  case 0
  show ?case
  proof (cases xs)
    case Nil
    then show ?thesis by simp
  next
    case (Cons c rest)
    with 0 have "atDepth cs k c" by simp
    with assms have "k < length cs" by (rule atDepth_bound)
    with 0 show ?thesis by simp
  qed
next
  case (Suc n)
  from Suc.prems(1) show ?case
  proof (induction xs)
    case Nil
    then show ?case by simp
  next
    case (Cons c rest)
    then obtain ns where ns: "populateReplies (Suc n) cs rest = Some ns" by auto
    have c: "atDepth cs k c" using Cons.prems by simp
    have "\<forall>r\<in>set (findReplies cs (cid c)). atDepth cs (Suc k) r"
      using c by (auto simp: set_findReplies intro: atDepth.reply)
    moreover have "length cs \<le> n + Suc k" using Suc.prems(2) by simp
    ultimately obtain rs where "populateReplies n cs (findReplies cs (cid c)) = Some rs"
      using Suc.IH by blast
    with ns show ?case by (simp add: Let_def)
  qed
qed

lemma sorted_findReplies:
  "sorted_wrt (\<lambda>a b. createdAt a \<le> createdAt b) (findReplies cs i)"
  using sorted_sort_key [of createdAt "filter (\<lambda>c. parentId c = Some i) cs"]
  by (simp add: findReplies_def sorted_map)

lemma sorted_findRoots:
  "sorted_wrt (\<lambda>a b. createdAt b \<le> createdAt a) (findRoots cs i)"
  using sorted_sort_key [of "\<lambda>c. - createdAt c" "filter (\<lambda>c. post c = i \<and> parentId c = None) cs"]
  by (simp add: findRoots_def sorted_map)

lemma findReplies_Nil:
  "findReplies cs i = [] \<longleftrightarrow> filter (\<lambda>r. parentId r = Some i) cs = []"
proof -
  have "length (findReplies cs i) = length (filter (\<lambda>r. parentId r = Some i) cs)"
    by (simp add: findReplies_def)
  then show ?thesis by (simp only: flip: length_0_conv)
qed

lemma populateReplies_nodes:
  "populateReplies n cs xs = Some ns \<Longrightarrow>
   map comment_of ns = xs \<and> (\<forall>nd\<in>set ns. threaded cs nd)"
proof (induction n cs xs arbitrary: ns rule: populateReplies.induct)
  case (1 n cs)
  then show ?case by simp
next
  case (2 cs c rest)
  then show ?case by simp
next
  case (3 n cs c rest)
  show ?case
  proof (cases "findReplies cs (cid c) = []")
    case True
    with "3.prems" obtain ns' where ns': "populateReplies (Suc n) cs rest = Some ns'"
      "ns = Node c None # ns'"
      by (auto simp: Let_def split: option.splits)
    from True have "filter (\<lambda>r. parentId r = Some (cid c)) cs = []"
      by (simp add: findReplies_Nil)
    moreover have "\<not> findReplies cs (cid c) \<noteq> []" using True by simp
    ultimately show ?thesis using "3.IH"(3) [OF refl _ ns'(1)] ns'(2) by simp
  next
    case False
    with "3.prems" obtain rs ns' where rs: "populateReplies n cs (findReplies cs (cid c)) = Some rs"
      and ns': "populateReplies (Suc n) cs rest = Some ns'" "ns = Node c (Some rs) # ns'"
      by (auto simp: Let_def split: option.splits)
    have r: "map comment_of rs = findReplies cs (cid c)" "\<forall>nd\<in>set rs. threaded cs nd"
      using "3.IH"(1) [OF refl False rs] by simp_all
    have "oldestFirst rs"
      using sorted_findReplies [of cs "cid c"] unfolding r(1) [symmetric]
      by (simp add: oldestFirst_def sorted_wrt_map)
    moreover have "set (map comment_of rs) = set (filter (\<lambda>r. parentId r = Some (cid c)) cs)"
      unfolding r(1) by (simp add: findReplies_def)
    moreover have "rs \<noteq> []" using False r(1) by auto
    ultimately have "threaded cs (Node c (Some rs))" using r(2) by simp
    with "3.IH"(2) [OF refl False rs ns'(1)] ns'(2) show ?thesis by simp
  qed
qed

section \<open>Comments keep pointing at posts\<close>

lemma findById_saveDoc_None:
  "findById key i (saveDoc key d xs) = None \<longleftrightarrow> findById key i xs = None"
  by (simp add: findById_saveDoc split: option.splits)

lemma set_removeDoc: "set (removeDoc key d xs) \<subseteq> set xs"
  by (induction xs) auto

lemma findById_removeDoc:
  "i \<noteq> key d \<Longrightarrow> findById key i (removeDoc key d xs) = findById key i xs"
  by (induction xs) (auto simp: findById_def)

lemma post_of_saved:
  assumes "findById cid i cs = Some c0" and "post c = post c0" and "cid c = cid c0"
  shows "post ` set (saveDoc cid c cs) \<subseteq> post ` set cs"
proof -
  have i: "cid c = i" using assms(1,3) by (simp add: findById_key)
  from assms(1) show ?thesis unfolding i [symmetric]
  proof (induction cs)
    case Nil
    then show ?case by simp
  next
    case (Cons a cs)
    show ?case
    proof (cases "cid a = cid c")
      case True
      with Cons.prems have "a = c0" by (simp add: findById_def)
      with True assms(2) show ?thesis by simp
    next
      case False
      with Cons.prems have "findById cid (cid c) cs = Some c0" by (simp add: findById_def)
      with Cons.IH False show ?thesis by auto
    qed
  qed
qed

lemma updateVoteCount_post [simp]: "post (updateVoteCount u v c) = post c"
  by (simp add: updateVoteCount_def removeExisting_def addNew_def Let_def split: option.splits)

lemma refsIntact_step:
  assumes "refsIntact s"
    and "post ` set (comments s') \<subseteq> post ` set (comments s)"
    and "\<And>j. findById pid j (posts s) \<noteq> None \<Longrightarrow> findById pid j (posts s') \<noteq> None"
  shows "refsIntact s'"
  unfolding refsIntact_def
proof
  fix c assume "c \<in> set (comments s')"
  with assms(2) obtain c0 where "c0 \<in> set (comments s)" "post c0 = post c" by force
  with assms(1) have "findById pid (post c) (posts s) \<noteq> None" by (auto simp: refsIntact_def)
  then show "findById pid (post c) (posts s') \<noteq> None" by (rule assms(3))
qed

lemma votePost_comments: "comments (snd (votePost flt userId i v s)) = comments s"
  by (simp add: votePost_def Let_def split: option.splits)

lemma voteComment_posts: "posts (snd (voteComment flt userId i v s)) = posts s"
  by (simp add: voteComment_def Let_def split: option.splits)

lemma votePost_refsIntact:
  assumes "refsIntact s"
  shows "refsIntact (snd (votePost flt userId i v s))"
proof (cases "findById pid i (posts s)")
  case None
  with assms show ?thesis by (simp add: votePost_def)
next
  case (Some p)
  from votePost_posts [OF Some, of flt userId v]
  have found: "\<And>j. findById pid j (posts s) \<noteq> None \<Longrightarrow>
            findById pid j (posts (snd (votePost flt userId i v s))) \<noteq> None"
    by (auto simp: findById_saveDoc)
  show ?thesis
    using assms
  proof (rule refsIntact_step)
    show "post ` set (comments (snd (votePost flt userId i v s))) \<subseteq> post ` set (comments s)"
      by (simp add: votePost_comments)
  qed (rule found)
qed

lemma voteComment_refsIntact:
  assumes "refsIntact s"
  shows "refsIntact (snd (voteComment flt userId i v s))"
proof (cases "findById cid i (comments s)")
  case None
  with assms show ?thesis by (simp add: voteComment_def)
next
  case (Some c)
  have "post ` set (saveDoc cid (updateVoteCount userId v c) (comments s)) \<subseteq> post ` set (comments s)"
    using Some by (rule post_of_saved) simp_all
  with voteComment_comments [OF Some, of flt userId v]
  have "post ` set (comments (snd (voteComment flt userId i v s))) \<subseteq> post ` set (comments s)"
    by auto
  with assms show ?thesis
    by (rule refsIntact_step) (simp add: voteComment_posts)
qed

lemma deleteComment_refsIntact:
  assumes "refsIntact s"
  shows "refsIntact (snd (deleteComment flt userId i s))"
  using assms
proof (rule refsIntact_step)
  show "post ` set (comments (snd (deleteComment flt userId i s))) \<subseteq> post ` set (comments s)"
    using set_removeDoc [of cid _ "comments s"]
    by (auto simp: deleteComment_def Let_def split: option.splits)
next
  fix j assume "findById pid j (posts s) \<noteq> None"
  then show "findById pid j (posts (snd (deleteComment flt userId i s))) \<noteq> None"
    by (auto simp: deleteComment_def Let_def findById_saveDoc split: option.splits)
qed

lemma createComment_refsIntact:
  assumes "refsIntact s"
  shows "refsIntact (snd (createComment flt userId newId now postId parent s))"
proof (cases "findById pid postId (posts s)")
  case None
  with assms show ?thesis by (simp add: createComment_def)
next
  case (Some p)
  show ?thesis
    unfolding refsIntact_def
  proof
    fix c assume c: "c \<in> set (comments (snd (createComment flt userId newId now postId parent s)))"
    have "post c = postId \<or> c \<in> set (comments s)"
      using c Some by (auto simp: createComment_def Let_def split: if_splits)
    with assms Some have "findById pid (post c) (posts s) \<noteq> None"
      by (auto simp: refsIntact_def)
    then show "findById pid (post c) (posts (snd (createComment flt userId newId now postId parent s))) \<noteq> None"
      using Some by (auto simp: createComment_def Let_def findById_saveDoc)
  qed
qed

lemma deletePost_refsIntact:
  assumes "refsIntact s"
  shows "refsIntact (snd (deletePost flt userId postId s))"
proof (cases "findById pid postId (posts s)")
  case None
  with assms show ?thesis by (simp add: deletePost_def)
next
  case (Some p)
  have 1: "refsIntact (s\<lparr>comments := filter (\<lambda>c. post c \<noteq> pid p) (comments s)\<rparr>)"
    using assms by (auto simp: refsIntact_def)
  have 2: "refsIntact (s\<lparr>comments := filter (\<lambda>c. post c \<noteq> pid p) (comments s),
                         posts := removeDoc pid p (posts s)\<rparr>)"
    using assms by (auto simp: refsIntact_def findById_removeDoc)
  from assms Some 1 2 show ?thesis
    by (simp add: deletePost_def Let_def)
qed

lemma refsIntact_empty: "refsIntact \<lparr>posts = [], comments = [], users = us\<rparr>"
  by (simp add: refsIntact_def)

section \<open>Karma after a vote\<close>

text \<open>
  Claim C1. After a vote, the stored karma of the target's author should be the sum of
  upvotes minus downvotes over all posts and all comments of the author. The comment route
  writes exactly that sum. The post route writes the sum over the author's posts only:
  in the store \<open>forum\<close>, user 1 has karma 1 from an upvoted comment; after user 2 upvotes
  post 10 of user 1 the route answers 200 and the stored karma is still 1, where the sum
  over posts and comments is 2.
\<close>

theorem votePost_karma_omits_comments:
  "fst (votePost NoFault 2 10 1 forum) = (200, VoteBody ''Vote recorded successfully'' 1 0) \<and>
   map_option karma (findById uid 1 (users (snd (votePost NoFault 2 10 1 forum)))) = Some 1 \<and>
   specKarma 1 (snd (votePost NoFault 2 10 1 forum)) = 2"
  by (simp add: votePost_def forum_def post10_def comment20_def comment21_def findById_def
        updateVoteCount_def removeExisting_def addNew_def voteRecorded_def aggregateKarma_def
        specKarma_def Let_def)

section \<open>Counter conservation\<close>

text \<open>
  Claim C2. A run of valid votes, by any users in any order, on a fresh post or a fresh
  comment ends with \<open>upvotes\<close> equal to the number of users whose last vote in the run
  is 1 and \<open>downvotes\<close> equal to the number of users whose last vote is -1.
\<close>

theorem counter_conservation:
  assumes "validCasts cs"
  shows "(findById pid i (posts s) = Some p \<and> fresh p \<longrightarrow>
            map_option upvotes (findById pid i (posts (votesOnPost cs i s))) =
              Some (int (usersWithLastVote 1 cs)) \<and>
            map_option downvotes (findById pid i (posts (votesOnPost cs i s))) =
              Some (int (usersWithLastVote (-1) cs))) \<and>
         (findById cid i (comments s) = Some c \<and> fresh c \<longrightarrow>
            map_option upvotes (findById cid i (comments (votesOnComment cs i s))) =
              Some (int (usersWithLastVote 1 cs)) \<and>
            map_option downvotes (findById cid i (comments (votesOnComment cs i s))) =
              Some (int (usersWithLastVote (-1) cs)))"
  using assms castAll_fresh [of p cs] castAll_fresh [of c cs]
  by (simp add: votesOnPost_castAll votesOnComment_castAll)

text \<open>
  Four users vote on the fresh post 10 and on the fresh comment 21: user 1 changes from 1
  to -1, user 2 votes -1, user 3 votes 1 and retracts, user 4 votes 1. One upvote and two
  downvotes remain.
\<close>

theorem counter_conservation_witness:
  "validCasts [(1, 1), (2, -1), (3, 1), (1, -1), (3, 0), (4, 1)] \<and>
   findById pid 10 (posts forum) = Some post10 \<and> fresh post10 \<and>
   findById cid 21 (comments forum) = Some comment21 \<and> fresh comment21 \<and>
   map_option upvotes (findById pid 10
     (posts (votesOnPost [(1, 1), (2, -1), (3, 1), (1, -1), (3, 0), (4, 1)] 10 forum))) = Some 1 \<and>
   map_option downvotes (findById pid 10
     (posts (votesOnPost [(1, 1), (2, -1), (3, 1), (1, -1), (3, 0), (4, 1)] 10 forum))) = Some 2 \<and>
   map_option upvotes (findById cid 21
     (comments (votesOnComment [(1, 1), (2, -1), (3, 1), (1, -1), (3, 0), (4, 1)] 21 forum))) = Some 1 \<and>
   map_option downvotes (findById cid 21
     (comments (votesOnComment [(1, 1), (2, -1), (3, 1), (1, -1), (3, 0), (4, 1)] 21 forum))) = Some 2"
proof -
  let ?cs = "[(1, 1), (2, -1), (3, 1), (1, -1), (3, 0), (4, 1)] :: (nat \<times> int) list"
  have v: "validCasts ?cs" by (simp add: validCasts_def)
  have p: "findById pid 10 (posts forum) = Some post10" "fresh post10"
    by (simp_all add: findById_def forum_def post10_def fresh_def)
  have c: "findById cid 21 (comments forum) = Some comment21" "fresh comment21"
    by (simp_all add: findById_def forum_def comment20_def comment21_def fresh_def)
  have n: "usersWithLastVote 1 ?cs = 1" "usersWithLastVote (-1) ?cs = 2"
    by (simp_all add: usersWithLastVote_def)
  from counter_conservation [OF v, of 10 forum post10 comment21]
       counter_conservation [OF v, of 21 forum post10 comment21] v p c n
  show ?thesis by simp
qed

section \<open>Idempotence\<close>

text \<open>
  Claim C3. Casting the same value twice in a row changes nothing the second time: on a
  target whose voters list has at most one entry per user, the second call gives the same
  response as the first and leaves the whole store (counters, voters entries, karma) as
  the first call left it. This holds for every vote value, on both routes. The vote block
  keeps the voters list at one entry per user (\<open>updateVoteCount_distinct\<close>).
\<close>

theorem castVote_idempotent:
  "((\<forall>p. findById pid i (posts s) = Some p \<longrightarrow> distinct (map user (voters p))) \<longrightarrow>
      votePost NoFault userId i v (snd (votePost NoFault userId i v s)) =
      votePost NoFault userId i v s) \<and>
   ((\<forall>c. findById cid i (comments s) = Some c \<longrightarrow> distinct (map user (voters c))) \<longrightarrow>
      voteComment NoFault userId i v (snd (voteComment NoFault userId i v s)) =
      voteComment NoFault userId i v s)"
  using votePost_twice voteComment_twice by blast

text \<open>
  User 2 upvotes post 10 twice, and twice retracts the vote on comment 20.
\<close>

theorem castVote_idempotent_witness:
  "findById pid 10 (posts forum) = Some post10 \<and> distinct (map user (voters post10)) \<and>
   votePost NoFault 2 10 1 (snd (votePost NoFault 2 10 1 forum)) = votePost NoFault 2 10 1 forum \<and>
   findById cid 20 (comments forum) = Some comment20 \<and> distinct (map user (voters comment20)) \<and>
   voteComment NoFault 2 20 0 (snd (voteComment NoFault 2 20 0 forum)) =
     voteComment NoFault 2 20 0 forum"
proof -
  have p: "findById pid 10 (posts forum) = Some post10" "distinct (map user (voters post10))"
    by (simp_all add: findById_def forum_def post10_def)
  have c: "findById cid 20 (comments forum) = Some comment20" "distinct (map user (voters comment20))"
    by (simp_all add: findById_def forum_def comment20_def)
  from castVote_idempotent [of 10 forum 2 1] castVote_idempotent [of 20 forum 2 0] p c
  show ?thesis by simp
qed

section \<open>No floor under the vote counters\<close>

text \<open>
  Claim C4, as stated, fails: the vote routes subtract 1 from a counter without a floor.
  In the store \<open>drifted\<close>, user 2 is on record with an upvote on post 10 while the
  upvote counter is 0; when user 2 retracts the vote, the route answers 200 with
  \<open>upvotes = -1\<close> and stores it.
\<close>

theorem castVote_counters_not_clamped:
  "fst (votePost NoFault 2 10 0 drifted) = (200, VoteBody ''Vote recorded successfully'' (-1) 0) \<and>
   map upvotes (posts (snd (votePost NoFault 2 10 0 drifted))) = [-1]"
  by (simp add: votePost_def drifted_def forum_def post10_def findById_def updateVoteCount_def
        removeExisting_def addNew_def voteRecorded_def aggregateKarma_def Let_def)

text \<open>
  Claim C4, amended. When both counters of the target are not negative and the vote that
  the caller has on record, if any, is counted in its counter, a vote leaves both
  counters not negative, whatever the requested value and whichever store call fails.
\<close>

theorem castVote_counters_nonneg:
  "(findById pid i (posts s) = Some p \<and> reflected userId p \<and>
    findById pid i (posts (snd (votePost flt userId i v s))) = Some p' \<longrightarrow>
      0 \<le> upvotes p' \<and> 0 \<le> downvotes p') \<and>
   (findById cid i (comments s) = Some c \<and> reflected userId c \<and>
    findById cid i (comments (snd (voteComment flt userId i v s))) = Some c' \<longrightarrow>
      0 \<le> upvotes c' \<and> 0 \<le> downvotes c')"
  using votePost_nonneg [of i s p userId flt v p'] voteComment_nonneg [of i s c userId flt v c']
  by blast

theorem castVote_counters_nonneg_witness:
  "findById pid 10 (posts forum) = Some post10 \<and> reflected 2 post10 \<and>
   findById pid 10 (posts (snd (votePost NoFault 2 10 (-1) forum))) =
     Some (post10\<lparr>downvotes := 1, voters := [\<lparr>user = 2, vote = -1\<rparr>]\<rparr>) \<and>
   0 \<le> upvotes (post10\<lparr>downvotes := 1, voters := [\<lparr>user = 2, vote = -1\<rparr>]\<rparr>) \<and>
   0 \<le> downvotes (post10\<lparr>downvotes := 1, voters := [\<lparr>user = 2, vote = -1\<rparr>]\<rparr>) \<and>
   findById cid 20 (comments forum) = Some comment20 \<and> reflected 2 comment20 \<and>
   findById cid 20 (comments (snd (voteComment NoFault 2 20 0 forum))) =
     Some (comment20\<lparr>upvotes := 0, voters := []\<rparr>) \<and>
   0 \<le> upvotes (comment20\<lparr>upvotes := 0, voters := []\<rparr>) \<and>
   0 \<le> downvotes (comment20\<lparr>upvotes := 0, voters := []\<rparr>)"
proof -
  have p: "findById pid 10 (posts forum) = Some post10" "reflected 2 post10"
    by (simp_all add: findById_def forum_def post10_def reflected_def)
  have p': "findById pid 10 (posts (snd (votePost NoFault 2 10 (-1) forum))) =
     Some (post10\<lparr>downvotes := 1, voters := [\<lparr>user = 2, vote = -1\<rparr>]\<rparr>)"
    by (simp add: votePost_def findById_def forum_def post10_def updateVoteCount_def addNew_def
          aggregateKarma_def Let_def)
  have c: "findById cid 20 (comments forum) = Some comment20" "reflected 2 comment20"
    by (simp_all add: findById_def forum_def comment20_def reflected_def)
  have c': "findById cid 20 (comments (snd (voteComment NoFault 2 20 0 forum))) =
     Some (comment20\<lparr>upvotes := 0, voters := []\<rparr>)"
    by (simp add: voteComment_def findById_def forum_def comment20_def comment21_def post10_def
          updateVoteCount_def removeExisting_def spliceOut_def aggregateKarma_def Let_def)
  from castVote_counters_nonneg
         [where i = 10 and s = forum and p = post10 and userId = 2 and flt = NoFault and v = "-1"
            and p' = "post10\<lparr>downvotes := 1, voters := [\<lparr>user = 2, vote = -1\<rparr>]\<rparr>"]
       castVote_counters_nonneg
         [where i = 20 and s = forum and c = comment20 and userId = 2 and flt = NoFault and v = 0
            and c' = "comment20\<lparr>upvotes := 0, voters := []\<rparr>"]
       p p' c c'
  show ?thesis by simp
qed

section \<open>Order of the comment tree\<close>

text \<open>
  Claim C5. In a store where comment ids are unique, the listing of any post returns
  (with a nesting allowance of at least the number of stored comments) a forest whose
  roots are exactly the post's comments without parent, newest first, and in which, at
  every depth, the replies of a comment are exactly the comments whose parent it is,
  oldest first.
\<close>

theorem buildTree_ordering:
  assumes "distinct (map cid (comments s))" and "length (comments s) \<le> fuel"
  shows "\<exists>forest. getPostComments fuel NoFault s postId = Some (200, CommentList forest) \<and>
           set (map comment_of forest) =
             set (filter (\<lambda>c. post c = postId \<and> parentId c = None) (comments s)) \<and>
           newestFirst forest \<and>
           (\<forall>nd\<in>set forest. threaded (comments s) nd)"
proof -
  have "\<forall>c\<in>set (findRoots (comments s) postId). atDepth (comments s) 0 c"
    by (auto simp: set_findRoots intro: atDepth.root)
  with assms obtain forest
    where f: "populateReplies fuel (comments s) (findRoots (comments s) postId) = Some forest"
    using populateReplies_returns [of "comments s" "findRoots (comments s) postId" 0 fuel] by auto
  then have n: "map comment_of forest = findRoots (comments s) postId"
    "\<forall>nd\<in>set forest. threaded (comments s) nd"
    using populateReplies_nodes by blast+
  have "newestFirst forest"
    using sorted_findRoots [of "comments s" postId] unfolding n(1) [symmetric]
    by (simp add: newestFirst_def sorted_wrt_map)
  moreover have "set (map comment_of forest) =
      set (filter (\<lambda>c. post c = postId \<and> parentId c = None) (comments s))"
    unfolding n(1) by (simp add: findRoots_def)
  ultimately show ?thesis using f n(2) by (simp add: getPostComments_def)
qed

text \<open>
  The discussion \<open>thread\<close>: the roots come back in the order 30, 20, 10, the replies of
  the first root in the order 40, 50.
\<close>

theorem buildTree_ordering_witness:
  "distinct (map cid (comments thread)) \<and> length (comments thread) \<le> 6 \<and>
   getPostComments 6 NoFault thread 10 =
     Some (200, CommentList
       [Node (remark 3 None 30) None,
        Node (remark 2 None 20) None,
        Node (remark 1 None 10)
          (Some [Node (remark 4 (Some 1) 40) (Some [Node (remark 6 (Some 4) 60) None]),
                 Node (remark 5 (Some 1) 50) None])]) \<and>
   newestFirst
       [Node (remark 3 None 30) None,
        Node (remark 2 None 20) None,
        Node (remark 1 None 10)
          (Some [Node (remark 4 (Some 1) 40) (Some [Node (remark 6 (Some 4) 60) None]),
                 Node (remark 5 (Some 1) 50) None])] \<and>
   threaded (comments thread)
       (Node (remark 1 None 10)
          (Some [Node (remark 4 (Some 1) 40) (Some [Node (remark 6 (Some 4) 60) None]),
                 Node (remark 5 (Some 1) 50) None]))"
proof -
  have d: "distinct (map cid (comments thread))" and l: "length (comments thread) \<le> 6"
    by (simp_all add: thread_def remark_def)
  have e: "getPostComments 6 NoFault thread 10 =
     Some (200, CommentList
       [Node (remark 3 None 30) None,
        Node (remark 2 None 20) None,
        Node (remark 1 None 10)
          (Some [Node (remark 4 (Some 1) 40) (Some [Node (remark 6 (Some 4) 60) None]),
                 Node (remark 5 (Some 1) 50) None])])"
    by (simp add: getPostComments_def thread_def findRoots_def findReplies_def remark_def
          eval_nat_numeral)
  from buildTree_ordering [OF d l, of 10] d l e show ?thesis by auto
qed

section \<open>Listing the comments of a post that does not exist\<close>

text \<open>
  Claim C7. The listing route never looks the post up. In a store where every comment
  belongs to a stored post, the listing of a post id that no stored post has is the empty
  forest, sent with status 200. Every modelled route keeps comments attached to stored
  posts (the lemmas on \<open>refsIntact\<close> above), and the empty store has the property.
\<close>

theorem buildTree_missing_post:
  assumes "refsIntact s" and "findById pid postId (posts s) = None"
  shows "getPostComments fuel NoFault s postId = Some (200, CommentList [])"
proof -
  have "filter (\<lambda>c. post c = postId \<and> parentId c = None) (comments s) = []"
    using assms by (auto simp: refsIntact_def filter_empty_conv)
  then have "findRoots (comments s) postId = []" by (simp add: findRoots_def)
  then show ?thesis by (simp add: getPostComments_def)
qed

theorem buildTree_missing_post_witness:
  "refsIntact forum \<and> findById pid 11 (posts forum) = None \<and>
   getPostComments 3 NoFault forum 11 = Some (200, CommentList [])"
proof -
  have r: "refsIntact forum"
    by (simp add: refsIntact_def forum_def findById_def post10_def comment20_def comment21_def)
  have n: "findById pid 11 (posts forum) = None"
    by (simp add: findById_def forum_def post10_def)
  from buildTree_missing_post [OF r n, of 3] r n show ?thesis by simp
qed

section \<open>A failing karma write\<close>

text \<open>
  Claim C8, as stated, fails: the karma write sits in the same \<open>try\<close> block as the rest of
  the handler. In the store \<open>forum\<close>, user 2 upvotes post 10 and the write of the author's
  karma throws: the route answers 400, although the upvote and the voters entry are
  stored.
\<close>

theorem karma_failure_not_swallowed:
  "fst (votePost SaveAuthor 2 10 1 forum) = (400, ErrMessage) \<and>
   map upvotes (posts (snd (votePost SaveAuthor 2 10 1 forum))) = [1] \<and>
   map voters (posts (snd (votePost SaveAuthor 2 10 1 forum))) = [[\<lparr>user = 2, vote = 1\<rparr>]] \<and>
   users (snd (votePost SaveAuthor 2 10 1 forum)) = users forum"
  by (simp add: votePost_def forum_def post10_def findById_def updateVoteCount_def addNew_def
        Let_def)

text \<open>
  Claim C8, amended. When the value is valid, the target and its author exist, and the
  karma aggregation or the karma write throws, the vote route answers 400 with the
  error's message; the counters and the voters entry of the target are stored as updated
  and the users are as before.
\<close>

theorem karma_failure_fails_vote:
  assumes "v \<in> {1, 0, -1}" and "flt = Aggregate \<or> flt = SaveAuthor"
  shows "(findById pid i (posts s) = Some p \<and> findById uid (author p) (users s) = Some u \<longrightarrow>
           votePost flt userId i v s =
             ((400, ErrMessage), s\<lparr>posts := saveDoc pid (updateVoteCount userId v p) (posts s)\<rparr>)) \<and>
         (findById cid i (comments s) = Some c \<and> findById uid (author c) (users s) = Some u \<longrightarrow>
           voteComment flt userId i v s =
             ((400, ErrMessage), s\<lparr>comments := saveDoc cid (updateVoteCount userId v c) (comments s)\<rparr>))"
  using assms
  by (auto simp: votePost_def voteComment_def Let_def)

theorem karma_failure_fails_vote_witness:
  "(1::int) \<in> {1, 0, -1} \<and>
   findById pid 10 (posts forum) = Some post10 \<and>
   findById uid (author post10) (users forum) = Some \<lparr>uid = 1, karma = 1\<rparr> \<and>
   votePost SaveAuthor 2 10 1 forum =
     ((400, ErrMessage), forum\<lparr>posts := saveDoc pid (updateVoteCount 2 1 post10) (posts forum)\<rparr>) \<and>
   findById cid 20 (comments forum) = Some comment20 \<and>
   findById uid (author comment20) (users forum) = Some \<lparr>uid = 1, karma = 1\<rparr> \<and>
   voteComment Aggregate 2 20 1 forum =
     ((400, ErrMessage), forum\<lparr>comments := saveDoc cid (updateVoteCount 2 1 comment20) (comments forum)\<rparr>)"
proof -
  have v: "(1::int) \<in> {1, 0, -1}" by simp
  have p: "findById pid 10 (posts forum) = Some post10"
    "findById uid (author post10) (users forum) = Some \<lparr>uid = 1, karma = 1\<rparr>"
    by (simp_all add: findById_def forum_def post10_def)
  have c: "findById cid 20 (comments forum) = Some comment20"
    "findById uid (author comment20) (users forum) = Some \<lparr>uid = 1, karma = 1\<rparr>"
    by (simp_all add: findById_def forum_def comment20_def)
  from karma_failure_fails_vote
         [where v = 1 and flt = SaveAuthor and i = 10 and s = forum and p = post10
            and u = "\<lparr>uid = 1, karma = 1\<rparr>" and userId = 2]
       karma_failure_fails_vote
         [where v = 1 and flt = Aggregate and i = 20 and s = forum and c = comment20
            and u = "\<lparr>uid = 1, karma = 1\<rparr>" and userId = 2]
       v p c
  show ?thesis by simp
qed

section \<open>Retracting a vote that was never cast\<close>

text \<open>The karma write touches the author's user document and no other.\<close>

lemma karmaWrite_other: "j \<noteq> a \<Longrightarrow> findById uid j (karmaWrite a k us) = findById uid j us"
proof (cases "findById uid a us")
  case None
  then show ?thesis by (simp add: karmaWrite_def)
next
  case (Some u)
  assume "j \<noteq> a"
  moreover have "uid u = a" using Some by (rule findById_key)
  ultimately show ?thesis using Some
    by (simp add: karmaWrite_def findById_saveDoc split: option.splits)
qed

lemma karmaWrite_ids: "map uid (karmaWrite a k us) = map uid us"
proof (cases "findById uid a us")
  case None
  then show ?thesis by (simp add: karmaWrite_def)
next
  case (Some u)
  have "\<And>d. uid d = uid u \<Longrightarrow> map uid (saveDoc uid d us) = map uid us"
    by (induction us) auto
  with Some show ?thesis by (simp add: karmaWrite_def)
qed

text \<open>
  Claim C9, as stated, fails: a vote of value 0 by a user without an entry in the voters
  list is not a pure no-op, because the karma of the target's author is recomputed and
  written after every valid vote. In the store \<open>forum\<close>, user 2 sends 0 on post 10 without
  having voted: the route answers 200 with the counters 0 and 0, and the stored karma of
  user 1 goes from 1 to 0. On the comment route, in the store that an upvote of post 10
  leaves behind, user 1 sends 0 on comment 20 without having voted: the route answers 200
  and the stored karma of user 1 goes from 1 to 2.
\<close>

theorem vote_zero_without_record_changes_karma:
  "findById pid 10 (posts forum) = Some post10 \<and>
   findIndex (\<lambda>x. user x = 2) (voters post10) = None \<and>
   fst (votePost NoFault 2 10 0 forum) = (200, VoteBody ''Vote recorded successfully'' 0 0) \<and>
   findById uid 1 (users forum) = Some \<lparr>uid = 1, karma = 1\<rparr> \<and>
   findById uid 1 (users (snd (votePost NoFault 2 10 0 forum))) = Some \<lparr>uid = 1, karma = 0\<rparr> \<and>
   findIndex (\<lambda>x. user x = 1) (voters comment20) = None \<and>
   findById uid 1 (users (snd (votePost NoFault 2 10 1 forum))) = Some \<lparr>uid = 1, karma = 1\<rparr> \<and>
   fst (voteComment NoFault 1 20 0 (snd (votePost NoFault 2 10 1 forum))) =
     (200, VoteBody ''Vote recorded successfully'' 1 0) \<and>
   findById uid 1 (users (snd (voteComment NoFault 1 20 0 (snd (votePost NoFault 2 10 1 forum))))) =
     Some \<lparr>uid = 1, karma = 2\<rparr>"
  by (simp add: votePost_def voteComment_def forum_def post10_def comment20_def comment21_def
        findById_def updateVoteCount_def removeExisting_def addNew_def voteRecorded_def
        aggregateKarma_def Let_def)

text \<open>
  Claim C9, amended. A vote of value 0 by a user without an entry in the target's voters
  list is answered with status 200 and the target's counters as they were, and leaves
  every post and every comment of the store, hence every counter and every voters list,
  unchanged. The one change to the store is the karma write: the author's stored karma is
  overwritten with the value the route recomputes (on the comment route the sum over the
  author's posts and comments), and no other user document changes.
\<close>

theorem vote_zero_without_record_frame:
  "(findById pid i (posts s) = Some p \<and> findIndex (\<lambda>x. user x = userId) (voters p) = None \<longrightarrow>
      votePost NoFault userId i 0 s =
        ((200, VoteBody ''Vote recorded successfully'' (upvotes p) (downvotes p)),
         s\<lparr>users := karmaWrite (author p) (aggregateKarma (author p) (posts s)) (users s)\<rparr>)) \<and>
   (findById cid i (comments s) = Some c \<and> findIndex (\<lambda>x. user x = userId) (voters c) = None \<longrightarrow>
      voteComment NoFault userId i 0 s =
        ((200, VoteBody ''Vote recorded successfully'' (upvotes c) (downvotes c)),
         s\<lparr>users := karmaWrite (author c) (specKarma (author c) s) (users s)\<rparr>))"
proof -
  have v: "(0::int) \<in> {1, 0, -1}" by simp
  have "votePost NoFault userId i 0 s =
        ((200, VoteBody ''Vote recorded successfully'' (upvotes p) (downvotes p)),
         s\<lparr>users := karmaWrite (author p) (aggregateKarma (author p) (posts s)) (users s)\<rparr>)"
    if "findById pid i (posts s) = Some p" "findIndex (\<lambda>x. user x = userId) (voters p) = None"
    using that
    by (simp add: votePost_NoFault [OF v that(1)] updateVoteCount_zero_absent saveDoc_same
          voteRecorded_def)
  moreover have "voteComment NoFault userId i 0 s =
        ((200, VoteBody ''Vote recorded successfully'' (upvotes c) (downvotes c)),
         s\<lparr>users := karmaWrite (author c) (specKarma (author c) s) (users s)\<rparr>)"
    if "findById cid i (comments s) = Some c" "findIndex (\<lambda>x. user x = userId) (voters c) = None"
    using that
    by (simp add: voteComment_NoFault [OF v that(1)] updateVoteCount_zero_absent saveDoc_same
          voteRecorded_def specKarma_def)
  ultimately show ?thesis by blast
qed

text \<open>
  In the store \<open>forum\<close> the vote of user 2 on post 10 changes the karma of user 1 and
  nothing else; the vote of user 1 on comment 20 finds the karma up to date and leaves
  the store as it was.
\<close>

theorem vote_zero_without_record_frame_witness:
  "findById pid 10 (posts forum) = Some post10 \<and>
   findIndex (\<lambda>x. user x = 2) (voters post10) = None \<and>
   votePost NoFault 2 10 0 forum =
     ((200, VoteBody ''Vote recorded successfully'' 0 0),
      forum\<lparr>users := [\<lparr>uid = 1, karma = 0\<rparr>, \<lparr>uid = 2, karma = 0\<rparr>]\<rparr>) \<and>
   findById cid 20 (comments forum) = Some comment20 \<and>
   findIndex (\<lambda>x. user x = 1) (voters comment20) = None \<and>
   voteComment NoFault 1 20 0 forum =
     ((200, VoteBody ''Vote recorded successfully'' 1 0), forum)"
proof -
  have p: "findById pid 10 (posts forum) = Some post10"
    "findIndex (\<lambda>x. user x = 2) (voters post10) = None"
    "upvotes post10 = 0" "downvotes post10 = 0"
    by (simp_all add: findById_def forum_def post10_def)
  have c: "findById cid 20 (comments forum) = Some comment20"
    "findIndex (\<lambda>x. user x = 1) (voters comment20) = None"
    "upvotes comment20 = 1" "downvotes comment20 = 0"
    by (simp_all add: findById_def forum_def comment20_def)
  have kp: "karmaWrite (author post10) (aggregateKarma (author post10) (posts forum)) (users forum) =
            [\<lparr>uid = 1, karma = 0\<rparr>, \<lparr>uid = 2, karma = 0\<rparr>]"
    by (simp add: karmaWrite_def aggregateKarma_def findById_def forum_def post10_def)
  have kc: "forum\<lparr>users := karmaWrite (author comment20) (specKarma (author comment20) forum) (users forum)\<rparr> = forum"
    by (simp add: karmaWrite_def specKarma_def aggregateKarma_def findById_def forum_def post10_def
          comment20_def comment21_def)
  from vote_zero_without_record_frame [where i = 10 and s = forum and p = post10 and userId = 2]
       vote_zero_without_record_frame [where i = 20 and s = forum and c = comment20 and userId = 1]
       p c kp kc
  show ?thesis by simp
qed

section \<open>Failed votes change nothing\<close>

text \<open>
  Claim C6. A vote whose value is not one of -1, 0, 1 is rejected with status 400 and the
  message "Invalid vote value"; a vote on a post or comment that does not exist is
  rejected with status 404. In both cases, on both routes, the store after the request
  is the store before it: no counter, voters entry or karma has changed.
\<close>

theorem castVote_rejects_without_mutation:
  "(v \<notin> {1, 0, -1} \<longrightarrow>
      votePost NoFault userId i v s = ((400, Message ''Invalid vote value''), s) \<and>
      voteComment NoFault userId i v s = ((400, Message ''Invalid vote value''), s)) \<and>
   (v \<in> {1, 0, -1} \<and> findById pid i (posts s) = None \<longrightarrow>
      votePost NoFault userId i v s = ((404, Message ''Post not found''), s)) \<and>
   (v \<in> {1, 0, -1} \<and> findById cid i (comments s) = None \<longrightarrow>
      voteComment NoFault userId i v s = ((404, Message ''Comment not found''), s))"
  by (simp add: votePost_def voteComment_def)

theorem castVote_rejects_without_mutation_witness:
  "(2::int) \<notin> {1, 0, -1} \<and>
   votePost NoFault 2 10 2 forum = ((400, Message ''Invalid vote value''), forum) \<and>
   voteComment NoFault 2 20 2 forum = ((400, Message ''Invalid vote value''), forum) \<and>
   findById pid 11 (posts forum) = None \<and>
   votePost NoFault 2 11 1 forum = ((404, Message ''Post not found''), forum) \<and>
   findById cid 22 (comments forum) = None \<and>
   voteComment NoFault 2 22 (-1) forum = ((404, Message ''Comment not found''), forum)"
proof -
  have a: "(2::int) \<notin> {1, 0, -1}" by simp
  have b: "findById pid 11 (posts forum) = None"
    by (simp add: findById_def forum_def post10_def)
  have c: "findById cid 22 (comments forum) = None"
    by (simp add: findById_def forum_def comment20_def comment21_def)
  show ?thesis
    using a b c
      castVote_rejects_without_mutation [of 2 2 10 forum]
      castVote_rejects_without_mutation [of 2 2 20 forum]
      castVote_rejects_without_mutation [of 1 2 11 forum]
      castVote_rejects_without_mutation [of "-1" 2 22 forum]
    by simp
qed

section \<open>The comment count has a floor of zero\<close>

text \<open>
  Claim C10. When a comment is deleted (the route answers 200) and its post exists, the
  post's \<open>commentCount\<close> after the request is not negative, whatever it was before:
  the decrement is \<open>max 0 (commentCount - 1)\<close>.
\<close>

theorem deleteComment_commentCount_nonneg:
  assumes "deleteComment flt userId commentId s = ((200, b), s')"
    and "findById cid commentId (comments s) = Some c"
    and "findById pid (post c) (posts s') = Some p'"
  shows "0 \<le> commentCount p'"
proof (cases "findById pid (post c) (posts s)")
  case None
  with assms show ?thesis
    by (auto simp: deleteComment_def Let_def split: if_splits)
next
  case (Some p)
  then have "pid p = post c" by (rule findById_key)
  with assms Some show ?thesis
    by (auto simp: deleteComment_def Let_def findById_saveDoc split: if_splits)
qed

text \<open>A post whose count had drifted to -3 has count 0 after one of its comments is deleted.\<close>

theorem deleteComment_commentCount_nonneg_witness:
  "deleteComment NoFault 1 20 (forum\<lparr>posts := [post10\<lparr>commentCount := -3\<rparr>]\<rparr>) =
     ((200, Message ''Comment deleted successfully''),
      \<lparr>posts = [post10\<lparr>commentCount := 0\<rparr>], comments = [comment21], users = users forum\<rparr>) \<and>
   findById cid 20 (comments (forum\<lparr>posts := [post10\<lparr>commentCount := -3\<rparr>]\<rparr>)) = Some comment20 \<and>
   findById pid (post comment20) [post10\<lparr>commentCount := 0\<rparr>] = Some (post10\<lparr>commentCount := 0\<rparr>) \<and>
   0 \<le> commentCount (post10\<lparr>commentCount := 0\<rparr>)"
proof -
  have a: "deleteComment NoFault 1 20 (forum\<lparr>posts := [post10\<lparr>commentCount := -3\<rparr>]\<rparr>) =
     ((200, Message ''Comment deleted successfully''),
      \<lparr>posts = [post10\<lparr>commentCount := 0\<rparr>], comments = [comment21], users = users forum\<rparr>)"
    by (simp add: deleteComment_def findById_def forum_def post10_def comment20_def)
  have b: "findById cid 20 (comments (forum\<lparr>posts := [post10\<lparr>commentCount := -3\<rparr>]\<rparr>)) = Some comment20"
    by (simp add: findById_def forum_def comment20_def)
  have c: "findById pid (post comment20)
             (posts \<lparr>posts = [post10\<lparr>commentCount := 0\<rparr>], comments = [comment21], users = users forum\<rparr>) =
           Some (post10\<lparr>commentCount := 0\<rparr>)"
    by (simp add: findById_def post10_def comment20_def)
  from deleteComment_commentCount_nonneg [OF a b c] a b c show ?thesis by simp
qed

end
